theory Spec2Isabelle
  imports Main "HOL-Library.Word" "HOL-Library.Monad_Syntax" "HOL-Library.FSet"
begin

section \<open>JavaScript strings and values\<close>

text \<open>
  A JavaScript string is a sequence of 16-bit code units. Field names and the other
  identifiers of the program text are ASCII and are written as HOL strings; \<open>js\<close> embeds
  an ASCII literal into the code-unit strings the program computes on.
\<close>

type_synonym jschar = "16 word"
type_synonym jstring = "jschar list"

definition js :: "string \<Rightarrow> jstring" where
  "js s = map of_char s"

text \<open>
  JavaScript values: \<open>undefined\<close> (what reading an absent property gives), \<open>null\<close>,
  booleans, integral numbers, strings and objects (ordered lists of properties).
\<close>

datatype jsval = Undefined | Null | Bool bool | Num int | Str jstring | Obj "(string \<times> jsval) list"

type_synonym jsobject = "(string \<times> jsval) list"

definition field :: "jsobject \<Rightarrow> string \<Rightarrow> jsval" where
  "field obj k = (case map_of obj k of None \<Rightarrow> Undefined | Some v \<Rightarrow> v)"

text \<open>ToBoolean: what an \<open>if\<close>, \<open>!\<close> or \<open>||\<close> makes of a value.\<close>

fun truthy :: "jsval \<Rightarrow> bool" where
  "truthy Undefined = False"
| "truthy Null = False"
| "truthy (Bool b) = b"
| "truthy (Num n) = (n \<noteq> 0)"
| "truthy (Str s) = (s \<noteq> [])"
| "truthy (Obj obj) = True"

text \<open>
  The decimal digits of a natural number, and ToString of an integral number. The
  digits are what JavaScript prints for integers of absolute value below \<open>10^21\<close>; from
  there on JavaScript prints an exponent form, which \<open>show_int\<close> does not follow.
\<close>

function decimal :: "nat \<Rightarrow> jstring" where
  "decimal n = (if n < 10 then [of_nat (48 + n)] else decimal (n div 10) @ [of_nat (48 + n mod 10)])"
  by pat_completeness auto
termination
  by (relation "measure id") auto

declare decimal.simps [simp del]

definition show_int :: "int \<Rightarrow> jstring" where
  "show_int i = (if i < 0 then js ''-'' @ decimal (nat (- i)) else decimal (nat i))"

text \<open>String concatenation \<open>'' + v\<close> converts its operand with ToString.\<close>

fun toString :: "jsval \<Rightarrow> jstring" where
  "toString Undefined = js ''undefined''"
| "toString Null = js ''null''"
| "toString (Bool b) = (if b then js ''true'' else js ''false'')"
| "toString (Num n) = show_int n"
| "toString (Str s) = s"
| "toString (Obj obj) = js ''[object Object]''"

subsection \<open>Character classes\<close>

text \<open>
  ECMAScript's LineTerminator, WhiteSpace (with the Unicode space separators), the
  classes \<open>\s\<close>, \<open>\w\<close>, \<open>\d\<close> and the dot of a regular expression without the
  \<open>s\<close> flag.
\<close>

definition isLineTerminator :: "jschar \<Rightarrow> bool" where
  "isLineTerminator c \<longleftrightarrow> c = 0x0A \<or> c = 0x0D \<or> c = 0x2028 \<or> c = 0x2029"

definition isWhiteSpace :: "jschar \<Rightarrow> bool" where
  "isWhiteSpace c \<longleftrightarrow>
     c = 0x09 \<or> c = 0x0B \<or> c = 0x0C \<or> c = 0x20 \<or> c = 0xA0 \<or> c = 0x1680 \<or>
     (0x2000 \<le> c \<and> c \<le> 0x200A) \<or> c = 0x202F \<or> c = 0x205F \<or> c = 0x3000 \<or>
     c = 0xFEFF"

definition isSpace :: "jschar \<Rightarrow> bool" where
  "isSpace c \<longleftrightarrow> isWhiteSpace c \<or> isLineTerminator c"

definition isDigit :: "jschar \<Rightarrow> bool" where
  "isDigit c \<longleftrightarrow> 0x30 \<le> c \<and> c \<le> 0x39"

definition isWord :: "jschar \<Rightarrow> bool" where
  "isWord c \<longleftrightarrow>
     (0x41 \<le> c \<and> c \<le> 0x5A) \<or> (0x61 \<le> c \<and> c \<le> 0x7A) \<or> isDigit c \<or> c = 0x5F"

definition isDot :: "jschar \<Rightarrow> bool" where
  "isDot c \<longleftrightarrow> \<not> isLineTerminator c"

subsection \<open>String methods\<close>

text \<open>\<open>String.prototype.trim\<close> removes white space and line terminators at both ends.\<close>

definition trim :: "jstring \<Rightarrow> jstring" where
  "trim s = rev (dropWhile isSpace (rev (dropWhile isSpace s)))"

fun startsWith :: "jstring \<Rightarrow> jstring \<Rightarrow> bool" where
  "startsWith s [] = True"
| "startsWith [] (p # ps) = False"
| "startsWith (c # s) (p # ps) = (c = p \<and> startsWith s ps)"

fun endsWith :: "jstring \<Rightarrow> jstring \<Rightarrow> bool" where
  "endsWith s p = startsWith (rev s) (rev p)"

text \<open>
  \<open>s.split('\n')\<close>: the pieces between line feeds; always at least one piece, the last
  one being what follows the last line feed.
\<close>

fun split_nl :: "jstring \<Rightarrow> jstring list" where
  "split_nl [] = [[]]"
| "split_nl (c # s) =
     (if c = 0x0A then [] # split_nl s
      else (case split_nl s of [] \<Rightarrow> [[c]] | l # ls \<Rightarrow> (c # l) # ls))"

section \<open>Regular expressions\<close>

text \<open>
  The patterns of \<open>OutputParser._parseLine\<close> are kept as syntax trees and run by a
  backtracking matcher in ECMAScript's order: the alternatives of \<open>|\<close> left to right, a
  greedy quantifier longest first, a lazy one shortest first. A matcher state is the
  index reached in the input, the input that remains and the captures made so far;
  \<open>matches r st\<close> lists the states in which \<open>r\<close> can end, most preferred first, so the
  match that JavaScript reports is the head of the list.
\<close>

type_synonym captures = "(nat \<times> jstring) list"
type_synonym mstate = "nat \<times> jstring \<times> captures"

datatype regex =
    Eps
  | Sym "jschar \<Rightarrow> bool"
  | Bol
  | Eol
  | Seq regex regex
  | Alt regex regex
  | Opt regex
  | Star regex
  | LazyStar regex
  | Group nat regex

fun shorter :: "jstring \<Rightarrow> mstate \<Rightarrow> bool" where
  "shorter s (n', s', cs') = (length s' < length s)"

function (sequential) matches :: "regex \<Rightarrow> mstate \<Rightarrow> mstate list" where
  "matches Eps st = [st]"
| "matches (Sym p) (n, [], cs) = []"
| "matches (Sym p) (n, c # s, cs) = (if p c then [(Suc n, s, cs)] else [])"
| "matches Bol (n, s, cs) = (if n = 0 then [(n, s, cs)] else [])"
| "matches Eol (n, s, cs) = (if s = [] then [(n, s, cs)] else [])"
| "matches (Seq a b) st = concat (map (matches b) (matches a st))"
| "matches (Alt a b) st = matches a st @ matches b st"
| "matches (Opt a) st = matches a st @ [st]"
| "matches (Star a) (n, s, cs) =
     concat (map (matches (Star a)) (filter (shorter s) (matches a (n, s, cs)))) @ [(n, s, cs)]"
| "matches (LazyStar a) (n, s, cs) =
     (n, s, cs) # concat (map (matches (LazyStar a)) (filter (shorter s) (matches a (n, s, cs))))"
| "matches (Group k a) (n, s, cs) =
     map (\<lambda>(n', s', cs'). (n', s', (k, take (n' - n) s) # cs')) (matches a (n, s, cs))"
  by pat_completeness auto
termination
  by (relation "measures [\<lambda>(r, st). size r, \<lambda>(r, n, s, cs). length s]") auto

text \<open>Pattern syntax: a literal character, a literal string, \<open>r+\<close>, and lists of
  alternatives and of factors.\<close>

definition chr :: "jschar \<Rightarrow> regex" where
  "chr k = Sym (\<lambda>c. c = k)"

fun str :: "jstring \<Rightarrow> regex" where
  "str [] = Eps"
| "str [c] = chr c"
| "str (c # cs) = Seq (chr c) (str cs)"

definition Plus :: "regex \<Rightarrow> regex" where
  "Plus r = Seq r (Star r)"

fun alts :: "regex list \<Rightarrow> regex" where
  "alts [] = Sym (\<lambda>c. False)"
| "alts [r] = r"
| "alts (r # rs) = Alt r (alts rs)"

fun seqs :: "regex list \<Rightarrow> regex" where
  "seqs [] = Eps"
| "seqs [r] = r"
| "seqs (r # rs) = Seq r (seqs rs)"

text \<open>
  Under the \<open>i\<close> flag (without \<open>u\<close>) two code units match when their canonical forms
  agree; the canonical form is the upper-case mapping, except that a code unit of 128
  or more is never mapped below 128. So a lower-case ASCII letter of the pattern is
  matched by itself and by its capital, and by nothing else.
\<close>

definition chr_i :: "jschar \<Rightarrow> regex" where
  "chr_i k = Sym (\<lambda>c. c = k \<or> c = k - 0x20)"

fun str_i :: "jstring \<Rightarrow> regex" where
  "str_i [] = Eps"
| "str_i [c] = chr_i c"
| "str_i (c # cs) = Seq (chr_i c) (str_i cs)"

text \<open>
  \<open>line.match(re)\<close> for a pattern without the \<open>g\<close> flag: the match is looked for at
  index 0, then 1, and so on up to the length of the line; the result is \<open>null\<close> or the
  captures of the first match found.
\<close>

fun exec_from :: "regex \<Rightarrow> nat \<Rightarrow> jstring \<Rightarrow> captures option" where
  "exec_from r n [] =
     (case matches r (n, [], []) of [] \<Rightarrow> None | (n', s', cs) # rest \<Rightarrow> Some cs)"
| "exec_from r n (c # s) =
     (case matches r (n, c # s, []) of
        [] \<Rightarrow> exec_from r (Suc n) s
      | (n', s', cs) # rest \<Rightarrow> Some cs)"

definition match :: "jstring \<Rightarrow> regex \<Rightarrow> captures option" where
  "match line r = exec_from r 0 line"

definition capture :: "captures \<Rightarrow> nat \<Rightarrow> jsval" where
  "capture cs k = (case map_of cs k of None \<Rightarrow> Undefined | Some s \<Rightarrow> Str s)"

section \<open>OutputParser\<close>

text \<open>
  The patterns of \<open>_parseLine\<close>, with the code units that the source file holds. The
  markers of the program text are not single glyphs: each is the sequence of characters
  that the UTF-8 bytes of a glyph give when read in a single-byte code page (the prompt
  marker is U+00E2 U+20AC U+00BA, what the bytes of U+203A read as), and the rule class
  is the set of the characters of six such sequences. The patterns match these
  sequences, and not the glyphs.
\<close>

definition toolCallRe :: regex where
  "toolCallRe = seqs [Bol, alts [str [0xE2, 0xBA], str [0xE2, 0x2014], str [0xE2, 0x2013, 0xB6],
       str [0xE2, 0x2013, 0xBA]],
     Star (Sym isSpace), Group 1 (Plus (Sym isWord)),
     Opt (Seq (Plus (Sym isSpace)) (Group 2 (Star (Sym isDot)))), Eol]"

definition toolSuccessRe :: regex where
  "toolSuccessRe = seqs [Bol, alts [str [0xE2, 0x153, 0x201C], str [0xE2, 0x153, 0x201D],
       str [0xE2, 0x153, 0x2026]],
     Star (Sym isSpace), Group 1 (Star (Sym isDot)), Eol]"

definition toolErrorRe :: regex where
  "toolErrorRe = seqs [Bol, alts [str [0xE2, 0x153, 0x2014], str [0xE2, 0x153, 0x2DC],
       str [0xE2, 0x152], str (js ''Error:'')],
     Star (Sym isSpace), Group 1 (Star (Sym isDot)), Eol]"

definition filePathRe :: regex where
  "filePathRe = seqs [Bol, alts [str (js ''Editing''), str (js ''Writing''), str (js ''Reading'')],
     Plus (Sym isSpace), Group 1 (Plus (Sym isDot)), Eol]"

definition bashRe :: regex where
  "bashRe = seqs [Bol, alts [chr 0x24, str [0xE2, 0x20AC, 0xBA], chr 0x3E],
     Star (Sym isSpace), Group 1 (Plus (Sym isDot)), Eol]"

definition thinkingRe :: regex where
  "thinkingRe = seqs [Bol, alts [str (js ''Thinking''), str [0x11F, 0x178, 0xA4, 0x201D],
       str [0x11F, 0x178, 0x2019, 0xAD]],
     alts [chr 0x3A, str (js ''...'')],
     Star (Sym isSpace), Group 1 (Star (Sym isDot)), Eol]"

definition costRe :: regex where
  "costRe = seqs [alts [Seq (str_i (js ''token'')) (Opt (chr_i 0x73)), str_i (js ''cost'')],
     LazyStar (Sym isDot),
     Group 1 (Seq (Plus (Sym isDigit)) (Opt (Seq (chr 0x2C) (Plus (Sym isDigit)))))]"

definition isRule :: "jschar \<Rightarrow> bool" where
  "isRule c \<longleftrightarrow> c \<in> set [0xE2, 0x201D, 0x20AC, 0xE2, 0x2022, 0xE2, 0x201D, 0xE2, 0x201D, 0x201E,
     0xE2, 0x201D, 0x2C6, 0xE2, 0x2022, 0x152]"

definition ruleRe :: regex where
  "ruleRe = seqs [Bol, Plus (Sym isRule), Eol]"

definition isDashEq :: "jschar \<Rightarrow> bool" where
  "isDashEq c \<longleftrightarrow> c = 0x2D \<or> c = 0x3D"

definition dashRe :: regex where
  "dashRe = seqs [Bol, Plus (Sym isDashEq), Eol]"

text \<open>A parsed event: an event type and a payload object.\<close>

record event =
  event_type :: jstring
  data :: jsobject

text \<open>\<open>m[2] || ''\<close>: the capture, or the empty string when it is undefined or empty.\<close>

definition or_empty :: "jsval \<Rightarrow> jsval" where
  "or_empty v = (if truthy v then v else Str [])"

definition parseLine :: "jstring \<Rightarrow> event option" where
  "parseLine line =
    (case match line toolCallRe of
       Some m \<Rightarrow> Some \<lparr>event_type = js ''tool_call'',
         data = [(''tool_name'', capture m 1), (''parameters'', or_empty (capture m 2)),
                 (''status'', Str (js ''started''))]\<rparr>
     | None \<Rightarrow>
    (case match line toolSuccessRe of
       Some m \<Rightarrow> Some \<lparr>event_type = js ''tool_result'',
         data = [(''result'', capture m 1), (''success'', Bool True)]\<rparr>
     | None \<Rightarrow>
    (case match line toolErrorRe of
       Some m \<Rightarrow> Some \<lparr>event_type = js ''tool_result'',
         data = [(''result'', capture m 1), (''success'', Bool False)]\<rparr>
     | None \<Rightarrow>
    (case match line filePathRe of
       Some m \<Rightarrow> Some \<lparr>event_type = js ''file_edit'',
         data = [(''file_path'', capture m 1),
                 (''action'', Str (if startsWith line (js ''Editing'') then js ''edit''
                                   else if startsWith line (js ''Writing'') then js ''write''
                                   else js ''read''))]\<rparr>
     | None \<Rightarrow>
    if startsWith line (js ''+'') \<and> \<not> startsWith line (js ''+++'') then
      Some \<lparr>event_type = js ''diff_add'', data = [(''content'', Str (drop 1 line))]\<rparr>
    else if startsWith line (js ''-'') \<and> \<not> startsWith line (js ''---'') then
      Some \<lparr>event_type = js ''diff_remove'', data = [(''content'', Str (drop 1 line))]\<rparr>
    else
    (case match line bashRe of
       Some m \<Rightarrow> Some \<lparr>event_type = js ''bash_command'',
         data = [(''command'', capture m 1), (''status'', Str (js ''started''))]\<rparr>
     | None \<Rightarrow>
    (case match line thinkingRe of
       Some m \<Rightarrow> Some \<lparr>event_type = js ''thinking'', data = [(''content'', capture m 1)]\<rparr>
     | None \<Rightarrow>
    (case match line costRe of
       Some m \<Rightarrow> Some \<lparr>event_type = js ''usage'', data = [(''raw'', Str line)]\<rparr>
     | None \<Rightarrow>
    if trim line = [] \<or> match line ruleRe \<noteq> None \<or> match line dashRe \<noteq> None then None
    else Some \<lparr>event_type = js ''text'', data = [(''content'', Str line)]\<rparr>)))))))"

text \<open>
  The parser object. \<open>currentBlock\<close> and \<open>blockStack\<close> are written by the constructor
  and by \<open>reset\<close> and never read.
\<close>

record parser =
  sessionId :: jsval
  remaining :: jstring
  currentBlock :: jsval
  blockStack :: "jsval list"

definition OutputParser :: "jsval \<Rightarrow> parser" where
  "OutputParser sid = \<lparr>sessionId = sid, remaining = [], currentBlock = Null, blockStack = []\<rparr>"

text \<open>
  \<open>parse(buffer)\<close>: the lines of \<open>remaining + buffer\<close> but the last are classified, the
  last one is kept in \<open>remaining\<close>. The result is the new parser and the events.
\<close>

definition parse :: "parser \<Rightarrow> jstring \<Rightarrow> parser \<times> event list" where
  "parse p buffer =
    (let fullBuffer = remaining p @ buffer;
         lines = split_nl fullBuffer
     in (p\<lparr>remaining := last lines\<rparr>, List.map_filter parseLine (butlast lines)))"

definition getRemaining :: "parser \<Rightarrow> jstring" where
  "getRemaining p = remaining p"

definition parser_reset :: "parser \<Rightarrow> parser" where
  "parser_reset p = p\<lparr>remaining := [], currentBlock := Null, blockStack := []\<rparr>"

text \<open>Feeding chunks one after another, collecting every call's events in order.\<close>

fun parse_chunks :: "parser \<Rightarrow> jstring list \<Rightarrow> parser \<times> event list" where
  "parse_chunks p [] = (p, [])"
| "parse_chunks p (c # cs) =
     (let (p1, es1) = parse p c; (p2, es2) = parse_chunks p1 cs in (p2, es1 @ es2))"

section \<open>MessageAggregator\<close>

text \<open>
  The aggregator keeps its message, the arrays of the message and the records in those
  arrays as JavaScript objects: \<open>currentTool\<close> and \<open>currentFile\<close> refer to records that
  are also elements of the message's arrays, and \<open>finalize\<close> returns an object that
  shares the arrays of the message it copies. The objects therefore live in a store,
  a list of cells addressed by position; allocation appends a cell.
\<close>

type_synonym addr = nat

datatype slot = Val jsval | Ref addr

record message =
  content :: jstring
  tool_calls :: addr
  file_changes :: addr
  bash_commands :: addr
  errors :: addr
  thinking :: addr

record tool =
  name :: jsval
  parameters :: jsval
  status :: jsval
  result :: jsval
  success :: jsval

record file_change =
  file_path :: jsval
  action :: jsval
  additions :: addr
  removals :: addr

record bash =
  command :: jsval
  output' :: jstring
  exit_code :: jsval

record err =
  message :: jsval
  source :: jsval

datatype cell =
    Message message
  | Tool tool
  | File file_change
  | Bash bash
  | Err err
  | Array "slot list"

type_synonym heap = "cell list"

definition alloc :: "heap \<Rightarrow> cell \<Rightarrow> heap \<times> addr" where
  "alloc h c = (h @ [c], length h)"

definition load :: "heap \<Rightarrow> addr \<Rightarrow> cell option" where
  "load h a = (if a < length h then Some (h ! a) else None)"

definition store :: "heap \<Rightarrow> addr \<Rightarrow> cell \<Rightarrow> heap" where
  "store h a c = h[a := c]"

text \<open>
  Reading a property of something that is not the expected object, or calling \<open>push\<close>
  on something that is not an array, throws a TypeError: the result \<open>None\<close>.
\<close>

definition load_message :: "heap \<Rightarrow> addr \<Rightarrow> message option" where
  "load_message h a = (case load h a of Some (Message m) \<Rightarrow> Some m | _ \<Rightarrow> None)"

definition load_tool :: "heap \<Rightarrow> addr \<Rightarrow> tool option" where
  "load_tool h a = (case load h a of Some (Tool t) \<Rightarrow> Some t | _ \<Rightarrow> None)"

definition load_file :: "heap \<Rightarrow> addr \<Rightarrow> file_change option" where
  "load_file h a = (case load h a of Some (File f) \<Rightarrow> Some f | _ \<Rightarrow> None)"

definition load_array :: "heap \<Rightarrow> addr \<Rightarrow> slot list option" where
  "load_array h a = (case load h a of Some (Array xs) \<Rightarrow> Some xs | _ \<Rightarrow> None)"

definition push :: "heap \<Rightarrow> addr \<Rightarrow> slot \<Rightarrow> heap option" where
  "push h a x = do { xs \<leftarrow> load_array h a; Some (store h a (Array (xs @ [x]))) }"

record aggregator =
  currentMessage :: addr
  currentTool :: "addr option"
  currentFile :: "addr option"
  currentBash :: "addr option"

type_synonym agg_state = "heap \<times> aggregator"

text \<open>\<open>reset()\<close>: a new message object with five new empty arrays; the three slots are null.\<close>

definition reset :: "heap \<Rightarrow> agg_state" where
  "reset h =
    (let (h1, tc) = alloc h (Array []);
         (h2, fc) = alloc h1 (Array []);
         (h3, bc) = alloc h2 (Array []);
         (h4, er) = alloc h3 (Array []);
         (h5, th) = alloc h4 (Array []);
         (h6, m) = alloc h5 (Message \<lparr>content = [], tool_calls = tc, file_changes = fc,
                      bash_commands = bc, errors = er, thinking = th\<rparr>)
     in (h6, \<lparr>currentMessage = m, currentTool = None, currentFile = None, currentBash = None\<rparr>))"

text \<open>The constructor sets \<open>currentMessage\<close> to null and calls \<open>reset\<close>.\<close>

definition MessageAggregator :: "heap \<Rightarrow> agg_state" where
  "MessageAggregator h = reset h"

definition addEvent :: "agg_state \<Rightarrow> 'a event_scheme \<Rightarrow> agg_state option" where
  "addEvent st e =
    (let (h, ag) = st; d = data e in
     if event_type e = js ''text'' then do {
       m \<leftarrow> load_message h (currentMessage ag);
       Some (store h (currentMessage ag)
               (Message (m\<lparr>content := content m @ toString (field d ''content'') @ [0x0A]\<rparr>)), ag)
     }
     else if event_type e = js ''tool_call'' then do {
       let (h1, t) = alloc h (Tool \<lparr>name = field d ''tool_name'', parameters = field d ''parameters'',
                                    status = field d ''status'', result = Null, success = Undefined\<rparr>);
       m \<leftarrow> load_message h1 (currentMessage ag);
       h2 \<leftarrow> push h1 (tool_calls m) (Ref t);
       Some (h2, ag\<lparr>currentTool := Some t\<rparr>)
     }
     else if event_type e = js ''tool_result'' then
       (case currentTool ag of
          Some t \<Rightarrow> do {
            c \<leftarrow> load_tool h t;
            Some (store h t (Tool (c\<lparr>result := field d ''result'', success := field d ''success''\<rparr>)),
                  ag\<lparr>currentTool := None\<rparr>)
          }
        | None \<Rightarrow> Some (h, ag))
     else if event_type e = js ''file_edit'' then do {
       let (h1, ad) = alloc h (Array []);
       let (h2, rm) = alloc h1 (Array []);
       let (h3, f) = alloc h2 (File \<lparr>file_path = field d ''file_path'', action = field d ''action'',
                                     additions = ad, removals = rm\<rparr>);
       m \<leftarrow> load_message h3 (currentMessage ag);
       h4 \<leftarrow> push h3 (file_changes m) (Ref f);
       Some (h4, ag\<lparr>currentFile := Some f\<rparr>)
     }
     else if event_type e = js ''diff_add'' then
       (case currentFile ag of
          Some f \<Rightarrow> do {
            c \<leftarrow> load_file h f;
            h1 \<leftarrow> push h (additions c) (Val (field d ''content''));
            Some (h1, ag)
          }
        | None \<Rightarrow> Some (h, ag))
     else if event_type e = js ''diff_remove'' then
       (case currentFile ag of
          Some f \<Rightarrow> do {
            c \<leftarrow> load_file h f;
            h1 \<leftarrow> push h (removals c) (Val (field d ''content''));
            Some (h1, ag)
          }
        | None \<Rightarrow> Some (h, ag))
     else if event_type e = js ''bash_command'' then do {
       let (h1, b) = alloc h (Bash \<lparr>command = field d ''command'', output' = [], exit_code = Null\<rparr>);
       m \<leftarrow> load_message h1 (currentMessage ag);
       h2 \<leftarrow> push h1 (bash_commands m) (Ref b);
       Some (h2, ag\<lparr>currentBash := Some b\<rparr>)
     }
     else if event_type e = js ''thinking'' then do {
       m \<leftarrow> load_message h (currentMessage ag);
       h1 \<leftarrow> push h (thinking m) (Val (field d ''content''));
       Some (h1, ag)
     }
     else if event_type e = js ''error'' then do {
       m \<leftarrow> load_message h (currentMessage ag);
       let (h1, x) = alloc h (Err \<lparr>message = field d ''message'', source = field d ''source''\<rparr>);
       h2 \<leftarrow> push h1 (errors m) (Ref x);
       Some (h2, ag)
     }
     else Some (h, ag))"

text \<open>The case labels of the switch in \<open>addEvent\<close>.\<close>

definition handled :: "jstring list" where
  "handled = [js ''text'', js ''tool_call'', js ''tool_result'', js ''file_edit'', js ''diff_add'',
     js ''diff_remove'', js ''bash_command'', js ''thinking'', js ''error'']"

text \<open>
  \<open>finalize()\<close>: a shallow copy of the message (a new object with the same five arrays),
  its content trimmed; then \<open>reset\<close>. The result is the new state and the address of
  the copy.
\<close>

definition finalize :: "agg_state \<Rightarrow> (agg_state \<times> addr) option" where
  "finalize st =
    (let (h, ag) = st in do {
       m \<leftarrow> load_message h (currentMessage ag);
       let (h1, snap) = alloc h (Message m);
       c \<leftarrow> load_message h1 snap;
       let h2 = store h1 snap (Message (c\<lparr>content := trim (content c)\<rparr>));
       Some (reset h2, snap)
     })"

definition agg_reset :: "agg_state \<Rightarrow> agg_state" where
  "agg_reset st = reset (fst st)"

text \<open>
  What a message object holds when it is read through the store: the AggregatedMessage
  as a value, with the records of its arrays in place of their addresses.
\<close>

record file_view =
  v_file_path :: jsval
  v_action :: jsval
  v_additions :: "jsval list"
  v_removals :: "jsval list"

record aggregated_message =
  a_content :: jstring
  a_tool_calls :: "tool list"
  a_file_changes :: "file_view list"
  a_bash_commands :: "bash list"
  a_errors :: "err list"
  a_thinking :: "jsval list"

definition load_bash :: "heap \<Rightarrow> addr \<Rightarrow> bash option" where
  "load_bash h a = (case load h a of Some (Bash b) \<Rightarrow> Some b | _ \<Rightarrow> None)"

definition load_err :: "heap \<Rightarrow> addr \<Rightarrow> err option" where
  "load_err h a = (case load h a of Some (Err e) \<Rightarrow> Some e | _ \<Rightarrow> None)"

fun slot_val :: "slot \<Rightarrow> jsval option" where
  "slot_val (Val v) = Some v"
| "slot_val (Ref a) = None"

fun slot_ref :: "(addr \<Rightarrow> 'a option) \<Rightarrow> slot \<Rightarrow> 'a option" where
  "slot_ref f (Ref a) = f a"
| "slot_ref f (Val v) = None"

definition read_vals :: "heap \<Rightarrow> addr \<Rightarrow> jsval list option" where
  "read_vals h a = do { xs \<leftarrow> load_array h a; those (map slot_val xs) }"

definition read_refs :: "(addr \<Rightarrow> 'a option) \<Rightarrow> heap \<Rightarrow> addr \<Rightarrow> 'a list option" where
  "read_refs f h a = do { xs \<leftarrow> load_array h a; those (map (slot_ref f) xs) }"

definition read_file :: "heap \<Rightarrow> addr \<Rightarrow> file_view option" where
  "read_file h a = do {
     f \<leftarrow> load_file h a;
     ad \<leftarrow> read_vals h (additions f);
     rm \<leftarrow> read_vals h (removals f);
     Some \<lparr>v_file_path = file_path f, v_action = action f, v_additions = ad, v_removals = rm\<rparr>
   }"

definition read_message :: "heap \<Rightarrow> addr \<Rightarrow> aggregated_message option" where
  "read_message h a = do {
     m \<leftarrow> load_message h a;
     tc \<leftarrow> read_refs (load_tool h) h (tool_calls m);
     fc \<leftarrow> read_refs (read_file h) h (file_changes m);
     bc \<leftarrow> read_refs (load_bash h) h (bash_commands m);
     er \<leftarrow> read_refs (load_err h) h (errors m);
     th \<leftarrow> read_vals h (thinking m);
     Some \<lparr>a_content = content m, a_tool_calls = tc, a_file_changes = fc,
           a_bash_commands = bc, a_errors = er, a_thinking = th\<rparr>
   }"

definition empty_message :: aggregated_message where
  "empty_message = \<lparr>a_content = [], a_tool_calls = [], a_file_changes = [],
     a_bash_commands = [], a_errors = [], a_thinking = []\<rparr>"

text \<open>The value that \<open>finalize()\<close> returns, read in the store it leaves.\<close>

definition finalized :: "agg_state \<Rightarrow> aggregated_message option" where
  "finalized st = do { (st1, snap) \<leftarrow> finalize st; read_message (fst st1) snap }"

text \<open>Sequences of calls on one aggregator.\<close>

datatype call = AddEvent event | Finalize | Reset

fun step :: "agg_state \<Rightarrow> call \<Rightarrow> agg_state option" where
  "step st (AddEvent e) = addEvent st e"
| "step st Finalize = map_option fst (finalize st)"
| "step st Reset = Some (agg_reset st)"

fun exec :: "agg_state \<Rightarrow> call list \<Rightarrow> agg_state option" where
  "exec st [] = Some st"
| "exec st (c # cs) = (case step st c of None \<Rightarrow> None | Some st1 \<Rightarrow> exec st1 cs)"

subsection \<open>Store typing\<close>

text \<open>
  The shape of the store that the aggregator maintains, as a typing of its cells: which
  cells are messages, tool, file, bash and error records, arrays of values and arrays
  of references to records of one kind.
\<close>

datatype tag = TMessage | TTool | TFile | TBash | TErr | TVals | TRefs tag

definition tag_at :: "tag list \<Rightarrow> addr \<Rightarrow> tag \<Rightarrow> bool" where
  "tag_at T a t \<longleftrightarrow> a < length T \<and> T ! a = t"

fun val_slot :: "slot \<Rightarrow> bool" where
  "val_slot (Val v) = True"
| "val_slot (Ref a) = False"

fun ref_slot :: "tag list \<Rightarrow> tag \<Rightarrow> slot \<Rightarrow> bool" where
  "ref_slot T t (Ref a) = tag_at T a t"
| "ref_slot T t (Val v) = False"

fun conforms :: "tag list \<Rightarrow> tag \<Rightarrow> cell \<Rightarrow> bool" where
  "conforms T TMessage (Message m) =
     (tag_at T (tool_calls m) (TRefs TTool) \<and> tag_at T (file_changes m) (TRefs TFile) \<and>
      tag_at T (bash_commands m) (TRefs TBash) \<and> tag_at T (errors m) (TRefs TErr) \<and>
      tag_at T (thinking m) TVals)"
| "conforms T TTool (Tool t) = True"
| "conforms T TFile (File f) = (tag_at T (additions f) TVals \<and> tag_at T (removals f) TVals)"
| "conforms T TBash (Bash b) = True"
| "conforms T TErr (Err e) = True"
| "conforms T TVals (Array xs) = list_all val_slot xs"
| "conforms T (TRefs t) (Array xs) = list_all (ref_slot T t) xs"
| "conforms T t c = False"

definition typed :: "tag list \<Rightarrow> heap \<Rightarrow> bool" where
  "typed T h \<longleftrightarrow> list_all2 (conforms T) T h"

text \<open>
  The invariant of an aggregator state, for a store typing \<open>T\<close> and a bound \<open>k\<close>: the
  store is typed, the aggregator refers to a message and its slots to a tool and a file
  record, and every cell the aggregator can write to (the message, its arrays, the open
  tool record, the arrays of the open file record) lies at \<open>k\<close> or above.
\<close>

definition msg_above :: "nat \<Rightarrow> message \<Rightarrow> bool" where
  "msg_above k m \<longleftrightarrow> k \<le> tool_calls m \<and> k \<le> file_changes m \<and> k \<le> bash_commands m \<and>
     k \<le> errors m \<and> k \<le> thinking m"

definition tool_ok :: "nat \<Rightarrow> tag list \<Rightarrow> addr option \<Rightarrow> bool" where
  "tool_ok k T x = (case x of None \<Rightarrow> True | Some t \<Rightarrow> tag_at T t TTool \<and> k \<le> t)"

definition file_ok :: "nat \<Rightarrow> tag list \<Rightarrow> heap \<Rightarrow> addr option \<Rightarrow> bool" where
  "file_ok k T h x = (case x of None \<Rightarrow> True
     | Some f \<Rightarrow> tag_at T f TFile \<and>
         (case load_file h f of None \<Rightarrow> False | Some c \<Rightarrow> k \<le> additions c \<and> k \<le> removals c))"

definition inv :: "nat \<Rightarrow> tag list \<Rightarrow> agg_state \<Rightarrow> bool" where
  "inv k T st \<longleftrightarrow> typed T (fst st) \<and> tag_at T (currentMessage (snd st)) TMessage \<and>
     k \<le> currentMessage (snd st) \<and>
     (case load_message (fst st) (currentMessage (snd st)) of None \<Rightarrow> False | Some m \<Rightarrow> msg_above k m) \<and>
     tool_ok k T (currentTool (snd st)) \<and> file_ok k T (fst st) (currentFile (snd st))"

text \<open>The cells below \<open>k\<close> are the same in two stores.\<close>

definition same_below :: "nat \<Rightarrow> heap \<Rightarrow> heap \<Rightarrow> bool" where
  "same_below k h h' \<longleftrightarrow> k \<le> length h \<and> k \<le> length h' \<and> take k h' = take k h"

text \<open>
  A call result \<open>r\<close> from the state \<open>st\<close> is a state that satisfies the invariant again and
  has the cells below \<open>k\<close> unchanged.
\<close>

definition moves :: "nat \<Rightarrow> agg_state \<Rightarrow> agg_state option \<Rightarrow> bool" where
  "moves k st r \<longleftrightarrow> (\<exists>T' st'. r = Some st' \<and> inv k T' st' \<and> same_below k (fst st) (fst st'))"

section \<open>ClaudeProcessSpawner\<close>

text \<open>A thrown \<open>Error\<close>, with its message.\<close>

datatype js_error = Error jstring | TypeError jstring

text \<open>
  The child process as the spawner sees it: the arguments and working directory it was
  spawned with, what has been written to its standard input, and the signals sent.
\<close>

record child =
  argv :: "jstring list"
  cwd :: jsval
  stdin :: "jstring list"
  signals :: "string list"

text \<open>
  What \<open>emit\<close> hands to the listeners: the event name and the payload object. The
  payload of \<open>output\<close> is \<open>{type: 'event', ...event, session_id, timestamp}\<close>.
\<close>

type_synonym emission = "string \<times> jsobject"

record spawner =
  sessionId :: jsval
  model :: jsval
  workingDirectory :: jsval
  process :: "child option"
  parser :: parser
  isRunning :: bool
  outputBuffer :: jstring
  emitted :: "emission list"
  killTimers :: nat

text \<open>
  \<open>WORKSPACE_DIR\<close> is the environment variable of that name, or this path when the
  variable is not set; the model takes the variable as not set. It is the default of
  the constructor's third parameter, used when the argument is \<open>undefined\<close>.
  \<open>killTimers\<close> counts the forced-kill timers that \<open>kill()\<close> has scheduled.
\<close>

definition WORKSPACE_DIR :: jsval where
  "WORKSPACE_DIR = Str (js ''/home/ubuntu/workspace'')"

definition ClaudeProcessSpawner :: "jsval \<Rightarrow> jsval \<Rightarrow> jsval \<Rightarrow> spawner" where
  "ClaudeProcessSpawner sid mdl wd =
     \<lparr>sessionId = sid, model = mdl,
      workingDirectory = (if wd = Undefined then WORKSPACE_DIR else wd), process = None,
      parser = OutputParser sid, isRunning = False, outputBuffer = [], emitted = [],
      killTimers = 0\<rparr>"

definition emit :: "string \<Rightarrow> jsobject \<Rightarrow> spawner \<Rightarrow> spawner" where
  "emit ev payload sp = sp\<lparr>emitted := emitted sp @ [(ev, payload)]\<rparr>"

text \<open>The payload of the \<open>process_error\<close> notification for a missing credential.\<close>

definition config_error :: "jsval \<Rightarrow> jsval \<Rightarrow> jsobject" where
  "config_error sid t =
     [(''type'', Str (js ''error'')),
      (''message'', Str (js ''ANTHROPIC_API_KEY environment variable is not set'')),
      (''source'', Str (js ''config'')), (''session_id'', sid), (''timestamp'', t)]"

text \<open>
  \<open>start()\<close>. \<open>key\<close> is the value of the environment variable \<open>ANTHROPIC_API_KEY\<close> read
  when the module is loaded (\<open>Undefined\<close> when it is not set), \<open>now\<close> what
  \<open>new Date().toISOString()\<close> gives. The result is the thrown error, or the spawner and
  the returned value (the child process, or \<open>null\<close>).
\<close>

definition start :: "jsval \<Rightarrow> jsval \<Rightarrow> spawner \<Rightarrow> js_error + (spawner \<times> child option)" where
  "start key now sp =
    (if isRunning sp then Inl (Error (js ''Process already running''))
     else if \<not> truthy key then
       Inr (emit ''process_error'' (config_error (sessionId sp) now) sp, None)
     else
       (let args = [js ''--dangerously-skip-permissions''] @
                   (if truthy (model sp) then [js ''--model'', toString (model sp)] else []);
            p = \<lparr>argv = args, cwd = workingDirectory sp, stdin = [], signals = []\<rparr>
        in Inr (sp\<lparr>process := Some p, isRunning := True\<rparr>, Some p)))"

text \<open>
  \<open>_processBuffer()\<close>: the parser is given the whole output buffer, each event it
  returns is emitted as an \<open>output\<close> notification, and the buffer becomes what the
  parser has left.
\<close>

definition output_notification :: "jsval \<Rightarrow> jsval \<Rightarrow> event \<Rightarrow> jsobject" where
  "output_notification sid now e =
     [(''type'', Str (js ''event'')), (''event_type'', Str (event_type e)), (''data'', Obj (data e)),
      (''session_id'', sid), (''timestamp'', now)]"

definition processBuffer :: "jsval \<Rightarrow> spawner \<Rightarrow> spawner" where
  "processBuffer now sp =
    (let (p, events) = parse (parser sp) (outputBuffer sp);
         sp1 = foldl (\<lambda>s e. emit ''output'' (output_notification (sessionId s) now e) s)
                 (sp\<lparr>parser := p\<rparr>) events
     in sp1\<lparr>outputBuffer := getRemaining p\<rparr>)"

text \<open>The listener on the child's standard output, for one chunk of data.\<close>

definition on_stdout :: "jsval \<Rightarrow> jstring \<Rightarrow> spawner \<Rightarrow> spawner" where
  "on_stdout now text sp = processBuffer now (sp\<lparr>outputBuffer := outputBuffer sp @ text\<rparr>)"

text \<open>The listener on the child's standard error.\<close>

definition on_stderr :: "jsval \<Rightarrow> jstring \<Rightarrow> spawner \<Rightarrow> spawner" where
  "on_stderr now text sp =
     emit ''error_output''
       [(''type'', Str (js ''event'')), (''event_type'', Str (js ''error'')),
        (''data'', Obj [(''message'', Str text), (''source'', Str (js ''stderr''))]),
        (''session_id'', sessionId sp), (''timestamp'', now)] sp"

text \<open>\<open>write(input)\<close>: throws when there is no running process; else writes the input,
  with a line feed added if it does not end with one, to the child's standard input.\<close>

definition write' :: "jstring \<Rightarrow> spawner \<Rightarrow> js_error + spawner" where
  "write' input sp =
    (case process sp of
       None \<Rightarrow> Inl (Error (js ''Process not running''))
     | Some p \<Rightarrow>
         if \<not> isRunning sp then Inl (Error (js ''Process not running''))
         else (let text = (if endsWith input [0x0A] then input else input @ [0x0A])
               in Inr (sp\<lparr>process := Some (p\<lparr>stdin := stdin p @ [text]\<rparr>)\<rparr>)))"

text \<open>\<open>abort()\<close> sends SIGINT to a running child.\<close>

definition abort :: "spawner \<Rightarrow> spawner" where
  "abort sp =
    (case process sp of
       Some p \<Rightarrow> if isRunning sp then sp\<lparr>process := Some (p\<lparr>signals := signals p @ [''SIGINT'']\<rparr>)\<rparr> else sp
     | None \<Rightarrow> sp)"

definition isActive :: "spawner \<Rightarrow> bool" where
  "isActive sp = isRunning sp"

text \<open>The chunks of a list delivered to the listener one after another.\<close>

fun feed :: "jsval \<Rightarrow> jstring list \<Rightarrow> spawner \<Rightarrow> spawner" where
  "feed now [] sp = sp"
| "feed now (c # cs) sp = feed now cs (on_stdout now c sp)"

text \<open>The \<open>output\<close> notifications among the emissions, in order.\<close>

definition outputs :: "spawner \<Rightarrow> jsobject list" where
  "outputs sp = map snd (filter (\<lambda>(ev, payload). ev = ''output'') (emitted sp))"

definition running_spawner :: "jsval \<Rightarrow> spawner" where
  "running_spawner sid =
     (case start (Str (js ''key'')) Null (ClaudeProcessSpawner sid Null Null) of
        Inr (sp, p) \<Rightarrow> sp | Inl e \<Rightarrow> ClaudeProcessSpawner sid Null Null)"

section \<open>SessionManager\<close>

text \<open>\<open>parseInt\<close> of the environment setting: an integer, or NaN.\<close>

datatype jsnum = NaN | Finite int

fun show_num :: "jsnum \<Rightarrow> jstring" where
  "show_num NaN = js ''NaN''"
| "show_num (Finite i) = show_int i"

text \<open>The row that \<open>createSession\<close> returns from the database.\<close>

record session_row =
  row_id :: jsval
  row_model :: jsval
  row_working_directory :: jsval

text \<open>
  An entry of \<open>activeSessions\<close>. The spawner is an object shared with the caller of
  \<open>startSession\<close>; the spawners live in the world below, by session id, and the entry
  refers to its spawner by that id. Sockets and timers are referred to by number.
\<close>

record session_info =
  proc :: jsval
  socket :: nat
  userId :: jsval
  timer :: nat
  projectRef :: jsval
  info_model :: jsval

text \<open>
  The session manager (\<open>activeSessions\<close>, \<open>userSessions\<close>) and what it acts on: the
  spawner objects, the armed timeout timers, per socket the messages sent and the ready
  state, and the calls made to the database.
\<close>

record world =
  activeSessions :: "jsval \<rightharpoonup> session_info"
  userSessions :: "jsval \<rightharpoonup> jsval fset"
  spawners :: "jsval \<rightharpoonup> spawner"
  timers :: "(nat \<times> jsval) list"
  next_timer :: nat
  sent :: "nat \<Rightarrow> jsobject list"
  readyState :: "nat \<Rightarrow> nat"
  subscribed :: "jsval \<rightharpoonup> nat"
  db_statuses :: "(jsval \<times> jstring \<times> jstring) list"
  db_messages :: "(jsval \<times> jstring \<times> jsval \<times> jstring) list"

definition getActiveSessionCount :: "world \<Rightarrow> jsval \<Rightarrow> nat" where
  "getActiveSessionCount w u = (case userSessions w u of Some sessions \<Rightarrow> fcard sessions | None \<Rightarrow> 0)"

text \<open>\<open>count < MAX_SESSIONS_PER_USER\<close>; a comparison with NaN is false.\<close>

definition canCreateSession :: "jsnum \<Rightarrow> world \<Rightarrow> jsval \<Rightarrow> bool" where
  "canCreateSession mx w u =
     (case mx of NaN \<Rightarrow> False | Finite m \<Rightarrow> int (getActiveSessionCount w u) < m)"

definition capacity_error :: "jsnum \<Rightarrow> js_error" where
  "capacity_error mx = Error (js ''Max sessions ('' @ show_num mx @ js '') reached for user'')"

definition setTimeout :: "jsval \<Rightarrow> world \<Rightarrow> world \<times> nat" where
  "setTimeout sid w =
     (w\<lparr>timers := timers w @ [(next_timer w, sid)], next_timer := Suc (next_timer w)\<rparr>, next_timer w)"

definition clearTimeout :: "nat \<Rightarrow> world \<Rightarrow> world" where
  "clearTimeout t w = w\<lparr>timers := filter (\<lambda>(t', sid). t' \<noteq> t) (timers w)\<rparr>"

text \<open>
  \<open>startSession\<close> is asynchronous: it checks the limit, then awaits \<open>createSession\<close>, and
  registers the session when the row has arrived. \<open>startSession_check\<close> is the part
  before the await and \<open>startSession_register\<close> the part after it; other calls can run in
  between. \<open>startSession\<close> is a call during which nothing else runs; \<open>created\<close> is the
  outcome of \<open>createSession\<close>.
\<close>

definition startSession_check :: "jsnum \<Rightarrow> world \<Rightarrow> jsval \<Rightarrow> js_error + unit" where
  "startSession_check mx w u = (if \<not> canCreateSession mx w u then Inl (capacity_error mx) else Inr ())"

definition startSession_register ::
  "world \<Rightarrow> jsval \<Rightarrow> jsval \<Rightarrow> jsval \<Rightarrow> jsval \<Rightarrow> nat \<Rightarrow> session_row \<Rightarrow> world \<times> session_row \<times> jsval" where
  "startSession_register w u pref mdl wd sock session =
    (let sid = row_id session;
         w1 = w\<lparr>spawners := (spawners w)(sid \<mapsto> ClaudeProcessSpawner sid mdl wd)\<rparr>;
         (w2, t) = setTimeout sid w1;
         w3 = w2\<lparr>activeSessions := (activeSessions w2)(sid \<mapsto>
                  \<lparr>proc = sid, socket = sock, userId = u, timer = t, projectRef = pref,
                   info_model = mdl\<rparr>)\<rparr>;
         w4 = (if userSessions w3 u = None then w3\<lparr>userSessions := (userSessions w3)(u \<mapsto> {||})\<rparr>
               else w3);
         w5 = w4\<lparr>userSessions := (userSessions w4)(u \<mapsto>
                  finsert sid (case userSessions w4 u of Some sessions \<Rightarrow> sessions | None \<Rightarrow> {||}))\<rparr>
     in (w5, session, sid))"

definition startSession ::
  "jsnum \<Rightarrow> js_error + session_row \<Rightarrow> world \<Rightarrow> jsval \<Rightarrow> jsval \<Rightarrow> jsval \<Rightarrow> jsval \<Rightarrow> nat
     \<Rightarrow> js_error + (world \<times> session_row \<times> jsval)" where
  "startSession mx created w u pref mdl wd sock =
    (case startSession_check mx w u of
       Inl e \<Rightarrow> Inl e
     | Inr _ \<Rightarrow>
         (case created of
            Inl e \<Rightarrow> Inl e
          | Inr session \<Rightarrow> Inr (startSession_register w u pref mdl wd sock session)))"

definition getSession :: "world \<Rightarrow> jsval \<Rightarrow> session_info option" where
  "getSession w sid = activeSessions w sid"

definition hasSession :: "world \<Rightarrow> jsval \<Rightarrow> bool" where
  "hasSession w sid = (activeSessions w sid \<noteq> None)"

definition resetTimeout :: "jsval \<Rightarrow> world \<Rightarrow> world" where
  "resetTimeout sid w =
    (case activeSessions w sid of
       Some session \<Rightarrow>
         (let (w1, t) = setTimeout sid (clearTimeout (timer session) w)
          in w1\<lparr>activeSessions := (activeSessions w1)(sid \<mapsto> session\<lparr>timer := t\<rparr>)\<rparr>)
     | None \<Rightarrow> w)"

text \<open>
  \<open>kill()\<close> of a spawner: if there is a child, SIGTERM is sent to it and a timer of five
  seconds is set. \<open>kill_timeout\<close> is what runs when such a timer fires: SIGKILL, if the
  child is still running.
\<close>

definition kill :: "spawner \<Rightarrow> spawner" where
  "kill sp =
    (case process sp of
       Some p \<Rightarrow> sp\<lparr>process := Some (p\<lparr>signals := signals p @ [''SIGTERM'']\<rparr>),
                    killTimers := Suc (killTimers sp)\<rparr>
     | None \<Rightarrow> sp)"

definition kill_timeout :: "spawner \<Rightarrow> spawner" where
  "kill_timeout sp =
    (case process sp of
       Some p \<Rightarrow>
         if isRunning sp
         then sp\<lparr>process := Some (p\<lparr>signals := signals p @ [''SIGKILL'']\<rparr>),
                 killTimers := killTimers sp - 1\<rparr>
         else sp\<lparr>killTimers := killTimers sp - 1\<rparr>
     | None \<Rightarrow> sp\<lparr>killTimers := killTimers sp - 1\<rparr>)"

definition send :: "nat \<Rightarrow> jsobject \<Rightarrow> world \<Rightarrow> world" where
  "send sock payload w = w\<lparr>sent := (sent w)(sock := sent w sock @ [payload])\<rparr>"

definition end_status :: "jstring \<Rightarrow> jstring" where
  "end_status reason =
     (if reason = js ''error'' then js ''error''
      else if reason = js ''abort'' then js ''aborted'' else js ''completed'')"

text \<open>
  \<open>endSession(sessionId, reason)\<close>; \<open>updated\<close> is the outcome of \<open>updateSessionStatus\<close>. The
  result is the world and what the call returns: \<open>undefined\<close> for an unknown session,
  the triple \<open>{sessionId, reason, status}\<close>, or the error thrown by the database call
  (after which the session is still registered).
\<close>

definition endSession ::
  "jsval \<Rightarrow> js_error + unit \<Rightarrow> jsval \<Rightarrow> jstring \<Rightarrow> world
     \<Rightarrow> world \<times> (js_error + (jsval \<times> jstring \<times> jstring) option)" where
  "endSession now updated sid reason w =
    (case activeSessions w sid of
       None \<Rightarrow> (w, Inr None)
     | Some session \<Rightarrow>
        (let w1 = clearTimeout (timer session) w;
             w2 = (case spawners w1 (proc session) of
                     Some sp \<Rightarrow> w1\<lparr>spawners := (spawners w1)(proc session \<mapsto> kill sp)\<rparr>
                   | None \<Rightarrow> w1);
             w3 = (if readyState w2 (socket session) = 1
                   then send (socket session)
                          [(''type'', Str (js ''event'')), (''event_type'', Str (js ''session_end'')),
                           (''data'', Obj [(''reason'', Str reason)]), (''session_id'', sid),
                           (''timestamp'', now)] w2
                   else w2);
             status = end_status reason;
             w4 = w3\<lparr>db_statuses := db_statuses w3 @ [(sid, status, reason)]\<rparr>
         in case updated of
              Inl e \<Rightarrow> (w4, Inl e)
            | Inr _ \<Rightarrow>
               (let w5 = w4\<lparr>activeSessions := (activeSessions w4)(sid := None)\<rparr>;
                    w6 = (case userSessions w5 (userId session) of
                            Some sessions \<Rightarrow>
                              (let sessions' = sessions |-| {|sid|}
                               in if fcard sessions' = 0
                                  then w5\<lparr>userSessions := (userSessions w5)(userId session := None)\<rparr>
                                  else w5\<lparr>userSessions := (userSessions w5)(userId session \<mapsto> sessions')\<rparr>)
                          | None \<Rightarrow> w5)
                in (w6, Inr (Some (sid, reason, status))))))"

section \<open>The message handler of the connection\<close>

text \<open>
  What one call of \<open>handleUserMessage\<close> finds outside the program: the environment
  settings read at load time, the clock, and the outcomes of the database calls it may
  make.
\<close>

record env =
  MAX_SESSIONS_PER_USER :: jsnum
  ANTHROPIC_API_KEY :: jsval
  PROJECT_REF :: jsval
  now :: jsval
  created :: "js_error + session_row"
  inserted :: "js_error + unit"

fun error_message :: "js_error \<Rightarrow> jstring" where
  "error_message (Error m) = m"
| "error_message (TypeError m) = m"

text \<open>
  The end of \<open>handleUserMessage\<close>, once the session and its spawner are known: the user
  message is stored, \<open>message_received\<close> is sent, and the content is written to the
  process; a failing write is reported on the socket.
\<close>

definition deliver :: "env \<Rightarrow> nat \<Rightarrow> jsval \<Rightarrow> jsval \<Rightarrow> jstring \<Rightarrow> world \<Rightarrow> world \<times> (js_error + unit)" where
  "deliver e sock sid spawner_ref txt w =
    (let w1 = w\<lparr>db_messages := db_messages w @ [(sid, js ''user'', Str txt, js ''user_message'')]\<rparr>
     in case inserted e of
          Inl err \<Rightarrow> (w1, Inl err)
        | Inr _ \<Rightarrow>
           (let w2 = send sock [(''type'', Str (js ''message_received'')), (''session_id'', sid),
                                (''timestamp'', now e)] w1
            in case spawners w2 spawner_ref of
                 None \<Rightarrow> (w2, Inl (TypeError (js ''Cannot read properties of undefined'')))
               | Some sp \<Rightarrow>
                  (case write' txt sp of
                     Inr sp' \<Rightarrow> (w2\<lparr>spawners := (spawners w2)(spawner_ref \<mapsto> sp')\<rparr>, Inr ())
                   | Inl err \<Rightarrow>
                      (send sock [(''type'', Str (js ''error'')),
                                  (''message'', Str (js ''Failed to send to Claude: '' @ error_message err)),
                                  (''session_id'', sid)] w2, Inr ()))))"

text \<open>
  \<open>handleUserMessage\<close>. The result is the world, the session id bound to the connection
  afterwards (\<open>setSessionId\<close> changes it), and how the call ends: normally, or with the
  error it throws.
\<close>

definition handleUserMessage ::
  "env \<Rightarrow> jsobject \<Rightarrow> nat \<Rightarrow> jsval \<Rightarrow> jsobject \<Rightarrow> jsval \<Rightarrow> world
     \<Rightarrow> world \<times> jsval \<times> (js_error + unit)" where
  "handleUserMessage e msg sock user_sub settings currentSessionId w =
    (let pref = (if truthy (field msg ''project_ref'') then field msg ''project_ref''
                 else PROJECT_REF e);
         content = field msg ''content'';
         empty = (send sock [(''type'', Str (js ''error'')),
                             (''message'', Str (js ''Empty message content''))] w,
                  currentSessionId, Inr ())
     in if \<not> truthy content then empty
        else case content of
          Str text \<Rightarrow>
            if trim text = [] then empty
            else
             (let sessionId = (if truthy currentSessionId then currentSessionId
                               else field msg ''session_id'')
              in if \<not> truthy sessionId \<or> \<not> hasSession w sessionId then
                   (case startSession (MAX_SESSIONS_PER_USER e) (created e) w user_sub pref
                           (if truthy (field msg ''model'') then field msg ''model''
                            else field settings ''preferred_model'')
                           (field settings ''working_directory'') sock of
                      Inl err \<Rightarrow>
                        (send sock [(''type'', Str (js ''error'')), (''message'', Str (error_message err))] w,
                         currentSessionId, Inr ())
                    | Inr (w1, session, sid) \<Rightarrow>
                        (let w2 = send sock [(''type'', Str (js ''session_started'')), (''session_id'', sid),
                                     (''model'', row_model session),
                                     (''working_directory'', row_working_directory session),
                                     (''timestamp'', now e)] w1
                         in case spawners w2 sid of
                              None \<Rightarrow> (w2, sid, Inr ())
                            | Some sp \<Rightarrow>
                               (case start (ANTHROPIC_API_KEY e) (now e) sp of
                                  Inl err \<Rightarrow>
                                    (send sock [(''type'', Str (js ''error'')),
                                                (''message'', Str (error_message err))] w2, sid, Inr ())
                                | Inr (sp', p) \<Rightarrow>
                                    (let w3 = w2\<lparr>spawners := (spawners w2)(sid \<mapsto> sp'),
                                                 subscribed := (subscribed w2)(sid \<mapsto> sock)\<rparr>;
                                         (w4, r) = deliver e sock sid sid text w3
                                     in (w4, sid, r)))))
                 else
                   (case getSession w sessionId of
                      None \<Rightarrow> (w, currentSessionId, Inl (TypeError (js ''Cannot read properties of undefined'')))
                    | Some session \<Rightarrow>
                        (let (w1, r) = deliver e sock sessionId (proc session) text (resetTimeout sessionId w)
                         in (w1, currentSessionId, r))))
        | _ \<Rightarrow> (w, currentSessionId, Inl (TypeError (js ''content.trim is not a function''))))"


section \<open>Definitions for the proofs\<close>

subsection \<open>Lines that start no pattern\<close>

text \<open>
  White space, dashes and equals signs: characters that start none of the patterns
  before the suppression rule. Used to state the lemmas on lines made of them.
\<close>

definition quiet :: "jschar \<Rightarrow> bool" where
  "quiet c \<longleftrightarrow> isSpace c \<or> isDashEq c"

text \<open>The scenario input of claim C3: five lines, each ended by a line feed.\<close>

definition scenario_lines :: jstring where
  "scenario_lines =
     [0x203A] @ js '' ls -la'' @ [0x0A] @ [0x2713] @ js '' done'' @ [0x0A] @
     js ''Hello world'' @ [0x0A] @ js ''+added'' @ [0x0A] @ js ''-removed'' @ [0x0A]"

text \<open>
  The same five lines with the prompt and success markers as the patterns hold them
  (U+00E2 U+20AC U+00BA and U+00E2 U+0153 U+201C) in place of the glyphs.
\<close>

definition stored_scenario_lines :: jstring where
  "stored_scenario_lines =
     [0xE2, 0x20AC, 0xBA] @ js '' ls -la'' @ [0x0A] @ [0xE2, 0x153, 0x201C] @ js '' done'' @ [0x0A] @
     js ''Hello world'' @ [0x0A] @ js ''+added'' @ [0x0A] @ js ''-removed'' @ [0x0A]"


subsection \<open>A sample run of the aggregator\<close>

text \<open>
  A text event, a tool call and its result; then a second batch with a tool result that
  finds no open tool; and the message that \<open>finalize\<close> returns after the first batch.
\<close>

definition calls0 :: "call list" where
  "calls0 = [AddEvent \<lparr>event_type = js ''text'', data = [(''content'', Str (js ''  hi''))]\<rparr>,
     AddEvent \<lparr>event_type = js ''tool_call'', data = [(''tool_name'', Str (js ''Read'')),
        (''parameters'', Str (js ''a.txt'')), (''status'', Str (js ''started''))]\<rparr>,
     AddEvent \<lparr>event_type = js ''tool_result'',
        data = [(''result'', Str (js ''done'')), (''success'', Bool True)]\<rparr>]"

definition late_result :: event where
  "late_result = \<lparr>event_type = js ''tool_result'',
     data = [(''result'', Str (js ''late'')), (''success'', Bool False)]\<rparr>"

definition calls1 :: "call list" where
  "calls1 = [AddEvent \<lparr>event_type = js ''text'', data = [(''content'', Str (js ''more''))]\<rparr>,
     AddEvent late_result]"

definition message0 :: aggregated_message where
  "message0 = \<lparr>a_content = js ''hi'',
     a_tool_calls = [\<lparr>name = Str (js ''Read''), parameters = Str (js ''a.txt''),
        status = Str (js ''started''), result = Str (js ''done''), success = Bool True\<rparr>],
     a_file_changes = [], a_bash_commands = [], a_errors = [], a_thinking = []\<rparr>"


subsection \<open>A sample world\<close>

text \<open>An empty world, an environment, a user and two database rows for the sample runs.\<close>

definition world0 :: world where
  "world0 = \<lparr>activeSessions = Map.empty, userSessions = Map.empty, spawners = Map.empty,
     timers = [], next_timer = 0, sent = (\<lambda>s. []), readyState = (\<lambda>s. 1),
     subscribed = Map.empty, db_statuses = [], db_messages = []\<rparr>"

definition row_a :: session_row where
  "row_a = \<lparr>row_id = Str (js ''a''), row_model = Null, row_working_directory = Null\<rparr>"

definition row_b :: session_row where
  "row_b = \<lparr>row_id = Str (js ''b''), row_model = Null, row_working_directory = Null\<rparr>"

definition env0 :: env where
  "env0 = \<lparr>MAX_SESSIONS_PER_USER = Finite 3, ANTHROPIC_API_KEY = Str (js ''key''),
     PROJECT_REF = Null, now = Null, created = Inr row_a, inserted = Inr ()\<rparr>"

definition user0 :: jsval where
  "user0 = Str (js ''u'')"

section \<open>Properties of the parser\<close>

lemma split_nl_nonempty: "split_nl s \<noteq> []"
  by (induction s) (auto split: list.splits)

subsection \<open>Chunking\<close>

lemma split_nl_last_no_nl: "0x0A \<notin> set (last (split_nl s))"
  by (induction s) (auto split: list.splits simp: split_nl_nonempty)

lemma split_nl_no_nl:
  "0x0A \<notin> set r \<Longrightarrow> split_nl (r @ b) = (r @ hd (split_nl b)) # tl (split_nl b)"
  by (induction r) (auto split: list.splits simp: split_nl_nonempty)

lemma split_nl_append:
  "split_nl (a @ b) = butlast (split_nl a) @ split_nl (last (split_nl a) @ b)"
proof (induction a)
  case Nil
  show ?case by simp
next
  case (Cons c a)
  show ?case
  proof (cases "c = 0x0A")
    case True
    with Cons show ?thesis by (simp add: split_nl_nonempty)
  next
    case False
    obtain l ls where sp: "split_nl a = l # ls"
      using split_nl_nonempty [of a] by (cases "split_nl a") auto
    show ?thesis
    proof (cases ls)
      case Nil
      with sp have "0x0A \<notin> set l" using split_nl_last_no_nl [of a] by simp
      with False have "0x0A \<notin> set (c # l)" by simp
      from split_nl_no_nl [OF this, of b] split_nl_no_nl [OF \<open>0x0A \<notin> set l\<close>, of b]
      show ?thesis using Cons False sp Nil by simp
    next
      case (Cons l' ls')
      with sp False show ?thesis using Cons.IH
        by (auto split: list.splits)
    qed
  qed
qed

lemma parse_append:
  "parse p (a @ b) =
     (fst (parse (fst (parse p a)) b), snd (parse p a) @ snd (parse (fst (parse p a)) b))"
proof -
  let ?la = "split_nl (remaining p @ a)"
  let ?lb = "split_nl (last ?la @ b)"
  have 1: "split_nl (remaining p @ a @ b) = butlast ?la @ ?lb"
    using split_nl_append [of "remaining p @ a" b] by simp
  have 2: "butlast (butlast ?la @ ?lb) = butlast ?la @ butlast ?lb"
    by (simp add: butlast_append split_nl_nonempty)
  have 3: "last (butlast ?la @ ?lb) = last ?lb"
    by (simp add: split_nl_nonempty)
  show ?thesis
    by (simp add: parse_def Let_def 1 2 3 List.map_filter_def)
qed

lemma parse_chunks_Cons:
  "parse_chunks p (c # cs) = parse p (concat (c # cs))"
proof (induction cs arbitrary: p c)
  case Nil
  show ?case by (simp add: split: prod.splits)
next
  case (Cons d cs)
  have "parse_chunks p (c # d # cs) =
     (fst (parse_chunks (fst (parse p c)) (d # cs)),
      snd (parse p c) @ snd (parse_chunks (fst (parse p c)) (d # cs)))"
    by (simp add: split: prod.splits)
  also have "\<dots> = (fst (parse (fst (parse p c)) (concat (d # cs))),
       snd (parse p c) @ snd (parse (fst (parse p c)) (concat (d # cs))))"
    by (simp only: Cons.IH)
  also have "\<dots> = parse p (c @ concat (d # cs))"
    by (simp only: parse_append [symmetric])
  finally show ?case by simp
qed

lemma parse_empty:
  assumes "0x0A \<notin> set (remaining p)"
  shows "parse p [] = (p, [])"
  using split_nl_no_nl [OF assms, of "[]"]
  by (simp add: parse_def List.map_filter_def)

lemma remaining_parse: "0x0A \<notin> set (remaining (fst (parse p b)))"
  by (simp add: parse_def Let_def split_nl_last_no_nl)

lemma remaining_parse_chunks:
  "0x0A \<notin> set (remaining (fst (parse_chunks (OutputParser sid) cs)))"
proof (cases cs)
  case Nil
  then show ?thesis by (simp add: OutputParser_def)
next
  case (Cons c cs')
  show ?thesis unfolding Cons parse_chunks_Cons by (rule remaining_parse)
qed

text \<open>
  Claim C2. From a new parser, and from every state a new parser reaches by earlier
  chunks, feeding chunks one after another gives the events, in order, and the final
  parser that one \<open>parse\<close> call on their concatenation gives. The chunks are arbitrary
  strings, so a chunk may end in the middle of a line.
\<close>

theorem parse_chunks_concat:
  "parse_chunks (fst (parse_chunks (OutputParser sid) before)) chunks =
   parse (fst (parse_chunks (OutputParser sid) before)) (concat chunks)"
proof (cases chunks)
  case Nil
  then show ?thesis by (simp add: parse_empty [OF remaining_parse_chunks])
next
  case (Cons c cs)
  show ?thesis unfolding Cons by (rule parse_chunks_Cons)
qed

subsection \<open>The scenario\<close>

text \<open>
  Claim C3, on the code. The first two lines of the scenario start with the glyphs
  U+203A and U+2713. The patterns hold other code units for these markers, so neither
  the prompt pattern nor the success pattern matches, and both lines fall through to
  the default rule: the five lines yield three \<open>text\<close> events, a \<open>diff_add\<close> and a
  \<open>diff_remove\<close>, where the claim has a \<open>bash_command\<close> and a \<open>tool_result\<close> first.
\<close>

theorem parse_scenario_text:
  "snd (parse (OutputParser sid) scenario_lines) =
   [\<lparr>event_type = js ''text'', data = [(''content'', Str ([0x203A] @ js '' ls -la''))]\<rparr>,
    \<lparr>event_type = js ''text'', data = [(''content'', Str ([0x2713] @ js '' done''))]\<rparr>,
    \<lparr>event_type = js ''text'', data = [(''content'', Str (js ''Hello world''))]\<rparr>,
    \<lparr>event_type = js ''diff_add'', data = [(''content'', Str (js ''added''))]\<rparr>,
    \<lparr>event_type = js ''diff_remove'', data = [(''content'', Str (js ''removed''))]\<rparr>]"
  by code_simp

text \<open>
  With the markers written as the patterns hold them, the lines yield the events of
  the scenario.
\<close>

lemma parse_stored_scenario:
  "snd (parse (OutputParser sid) stored_scenario_lines) =
   [\<lparr>event_type = js ''bash_command'',
      data = [(''command'', Str (js ''ls -la'')), (''status'', Str (js ''started''))]\<rparr>,
    \<lparr>event_type = js ''tool_result'',
      data = [(''result'', Str (js ''done'')), (''success'', Bool True)]\<rparr>,
    \<lparr>event_type = js ''text'', data = [(''content'', Str (js ''Hello world''))]\<rparr>,
    \<lparr>event_type = js ''diff_add'', data = [(''content'', Str (js ''added''))]\<rparr>,
    \<lparr>event_type = js ''diff_remove'', data = [(''content'', Str (js ''removed''))]\<rparr>]"
  by code_simp

subsection \<open>Suppressed lines\<close>

lemma exec_from_Bol: "exec_from (Seq Bol r) (Suc n) s = None"
  by (induction s arbitrary: n) simp_all

lemma match_anchored_None: "matches r (0, line, []) = [] \<Longrightarrow> match line (Seq Bol r) = None"
  by (cases line) (simp_all add: match_def exec_from_Bol)

lemma quiet_not_marker:
  assumes "quiet c"
  shows "c \<noteq> 0xE2" "c \<noteq> 0x45" "c \<noteq> 0x57" "c \<noteq> 0x52" "c \<noteq> 0x24" "c \<noteq> 0x3E"
    "c \<noteq> 0x54" "c \<noteq> 0x11F" "c \<noteq> 0x74" "c \<noteq> 0x63" "c \<noteq> 0x43" "c \<noteq> 0x2B"
  using assms
  by (auto simp: quiet_def isSpace_def isWhiteSpace_def isLineTerminator_def isDashEq_def)

lemma toolCall_quiet: "line = [] \<or> quiet (hd line) \<Longrightarrow> match line toolCallRe = None"
  unfolding toolCallRe_def seqs.simps
  by (rule match_anchored_None, cases line) (simp_all add: chr_def quiet_not_marker)


lemma toolSuccess_quiet: "line = [] \<or> quiet (hd line) \<Longrightarrow> match line toolSuccessRe = None"
  unfolding toolSuccessRe_def seqs.simps
  by (rule match_anchored_None, cases line) (simp_all add: chr_def quiet_not_marker)

lemma toolError_quiet: "line = [] \<or> quiet (hd line) \<Longrightarrow> match line toolErrorRe = None"
  unfolding toolErrorRe_def seqs.simps
  by (rule match_anchored_None, cases line) (simp_all add: chr_def js_def quiet_not_marker)

lemma filePath_quiet: "line = [] \<or> quiet (hd line) \<Longrightarrow> match line filePathRe = None"
  unfolding filePathRe_def seqs.simps
  by (rule match_anchored_None, cases line) (simp_all add: chr_def js_def quiet_not_marker)

lemma bash_quiet: "line = [] \<or> quiet (hd line) \<Longrightarrow> match line bashRe = None"
  unfolding bashRe_def seqs.simps
  by (rule match_anchored_None, cases line) (simp_all add: chr_def js_def quiet_not_marker)

lemma thinking_quiet: "line = [] \<or> quiet (hd line) \<Longrightarrow> match line thinkingRe = None"
  unfolding thinkingRe_def seqs.simps
  by (rule match_anchored_None, cases line) (simp_all add: chr_def js_def quiet_not_marker)

lemma cost_head: "s = [] \<or> quiet (hd s) \<Longrightarrow> matches costRe (n, s, []) = []"
  unfolding costRe_def seqs.simps
  by (cases s) (simp_all add: chr_i_def js_def quiet_not_marker)

lemma cost_quiet_from: "list_all quiet s \<Longrightarrow> exec_from costRe n s = None"
  by (induction s arbitrary: n) (simp_all add: cost_head)

lemma cost_quiet: "list_all quiet line \<Longrightarrow> match line costRe = None"
  by (simp add: match_def cost_quiet_from)

lemma trim_empty_iff: "trim s = [] \<longleftrightarrow> list_all isSpace s"
proof
  assume "trim s = []"
  then have a: "dropWhile isSpace (rev (dropWhile isSpace s)) = []" by (simp add: trim_def)
  show "list_all isSpace s"
  proof (cases "dropWhile isSpace s")
    case Nil
    then show ?thesis by (simp add: list_all_iff dropWhile_eq_Nil_conv)
  next
    case (Cons c t)
    then have "\<not> isSpace c" using hd_dropWhile [of isSpace s] by simp
    with a Cons show ?thesis by (simp add: dropWhile_append split: if_splits)
  qed
next
  assume "list_all isSpace s"
  then have "dropWhile isSpace s = []" by (induction s) simp_all
  then show "trim s = []" by (simp add: trim_def del: dropWhile_eq_Nil_conv)
qed

lemma Star_all:
  "list_all p s \<Longrightarrow> \<exists>ms. matches (Star (Sym p)) (n, s, cs) = (n + length s, [], cs) # ms"
proof (induction s arbitrary: n)
  case Nil
  show ?case by simp
next
  case (Cons c s)
  then obtain ms where "matches (Star (Sym p)) (Suc n, s, cs) = (Suc n + length s, [], cs) # ms"
    by fastforce
  with Cons.prems show ?case by simp
qed

lemma match_run:
  assumes "list_all p line" "line \<noteq> []"
  shows "match line (seqs [Bol, Plus (Sym p), Eol]) \<noteq> None"
proof -
  obtain c s where l: "line = c # s" using assms(2) by (cases line) auto
  with assms(1) have "p c" "list_all p s" by simp_all
  from Star_all [OF this(2), of "Suc 0" "[]"] obtain ms
    where "matches (Star (Sym p)) (Suc 0, s, []) = (Suc 0 + length s, [], []) # ms" by blast
  with \<open>p c\<close> show ?thesis
    by (simp add: match_def l Plus_def)
qed

lemma parseLine_quiet:
  assumes "list_all quiet line" "\<not> startsWith line (js ''-'') \<or> startsWith line (js ''---'')"
    and "trim line = [] \<or> match line ruleRe \<noteq> None \<or> match line dashRe \<noteq> None"
  shows "parseLine line = None"
proof -
  have h: "line = [] \<or> quiet (hd line)" using assms(1) by (cases line) simp_all
  have p: "\<not> startsWith line (js ''+'')"
    using h by (cases line) (auto simp: js_def quiet_not_marker)
  show ?thesis
    using assms(2,3) p
    by (simp add: parseLine_def toolCall_quiet [OF h] toolSuccess_quiet [OF h] toolError_quiet [OF h]
        filePath_quiet [OF h] bash_quiet [OF h] thinking_quiet [OF h] cost_quiet [OF assms(1)])
qed

lemma quiet_cases: "isSpace c \<Longrightarrow> quiet c" "isDashEq c \<Longrightarrow> quiet c"
  by (simp_all add: quiet_def)

text \<open>
  Claim C4, as the code has it by design. A line that is blank, or a non-empty run of
  \<open>-\<close> and \<open>=\<close> that does not start with \<open>-\<close> unless it starts with \<open>---\<close>, yields no
  event. (The diff rules come before the suppression rule, so a run that starts with
  one or two dashes only is a \<open>diff_remove\<close>.) Lines of rule characters are left out of
  the statement: see the two lemmas at the end of this subsection.
\<close>

theorem parseLine_suppressed:
  assumes "trim line = [] \<or>
     (line \<noteq> [] \<and> list_all isDashEq line \<and>
        (startsWith line (js ''-'') \<longrightarrow> startsWith line (js ''---'')))"
  shows "parseLine line = None"
  using assms
proof (elim disjE conjE)
  assume a: "trim line = []"
  then have s: "list_all isSpace line" by (simp add: trim_empty_iff)
  then have q: "list_all quiet line" by (simp add: list_all_iff quiet_cases)
  have "\<not> startsWith line (js ''-'')"
    using s by (cases line) (auto simp: js_def quiet_cases quiet_not_marker isSpace_def isWhiteSpace_def isLineTerminator_def)
  with q a show ?thesis by (intro parseLine_quiet) simp_all
next
  assume a: "line \<noteq> []" "list_all isDashEq line"
    "startsWith line (js ''-'') \<longrightarrow> startsWith line (js ''---'')"
  then have q: "list_all quiet line" by (simp add: list_all_iff quiet_cases)
  have "match line dashRe \<noteq> None"
    unfolding dashRe_def by (rule match_run) (use a in simp_all)
  then show ?thesis using q a(3) by (intro parseLine_quiet) auto
qed

text \<open>
  Claim C4 as stated fails for a run of a single dash: the line \<open>-\<close> is not blank, is a
  pure run of dashes, and yields a \<open>diff_remove\<close> event with empty content.
\<close>

theorem parseLine_single_dash:
  "trim (js ''-'') \<noteq> [] \<and> list_all isDashEq (js ''-'') \<and>
   parseLine (js ''-'') = Some \<lparr>event_type = js ''diff_remove'', data = [(''content'', Str [])]\<rparr>"
  by code_simp

text \<open>Instances of the suppression theorem: a run of \<open>=\<close>, three dashes, blanks.\<close>

theorem parseLine_suppressed_witness:
  "parseLine (js ''====='') = None \<and> parseLine (js ''---'') = None \<and> parseLine (js ''  '') = None"
proof -
  have 1: "list_all isDashEq (js ''====='')" "list_all isDashEq (js ''---'')" "trim (js ''  '') = []"
    by (simp_all add: js_def isDashEq_def trim_def isSpace_def isWhiteSpace_def)
  have 2: "startsWith (js ''---'') (js ''---'')" "\<not> startsWith (js ''====='') (js ''-'')"
    by (simp_all add: js_def)
  show ?thesis
    using parseLine_suppressed [of "js ''=====''"] parseLine_suppressed [of "js ''---''"]
      parseLine_suppressed [of "js ''  ''"] 1 2
    by (simp add: js_def)
qed

text \<open>
  The class of the rule pattern holds the characters of the stored sequences, not the
  box-drawing characters: a line of U+2500 and U+2550 is a \<open>text\<close> event, and a line made of
  the stored sequence for U+2500 is suppressed.
\<close>

lemma box_line_is_text:
  "parseLine [0x2500, 0x2500, 0x2550] =
     Some \<lparr>event_type = js ''text'', data = [(''content'', Str [0x2500, 0x2500, 0x2550])]\<rparr>"
  by code_simp

lemma stored_rule_line_suppressed:
  "parseLine [0xE2, 0x201D, 0x20AC, 0xE2, 0x201D, 0x20AC] = None"
  by code_simp

section \<open>Properties of the aggregator\<close>

subsection \<open>The store and its typing\<close>

lemma load_alloc: "load (h @ [c]) a = (if a = length h then Some c else load h a)"
  by (auto simp: load_def nth_append)

lemma load_store: "load (store h a c) b = (if b = a \<and> a < length h then Some c else load h b)"
  by (auto simp: load_def store_def)

lemma length_store [simp]: "length (store h a c) = length h"
  by (simp add: store_def)

lemma tag_at_append: "tag_at T a t \<Longrightarrow> tag_at (T @ X) a t"
  by (auto simp: tag_at_def nth_append)

lemma tag_at_new: "tag_at (T @ [t]) (length T) t"
  by (simp add: tag_at_def)

lemma tag_at_neq: "tag_at T a t \<Longrightarrow> tag_at T b u \<Longrightarrow> t \<noteq> u \<Longrightarrow> a \<noteq> b"
  by (auto simp: tag_at_def)

lemma ref_slot_append: "ref_slot T t x \<Longrightarrow> ref_slot (T @ X) t x"
  by (cases x) (simp_all add: tag_at_append)

lemma conforms_append: "conforms T t c \<Longrightarrow> conforms (T @ X) t c"
  by (induction T t c rule: conforms.induct)
     (auto simp: tag_at_append list_all_iff ref_slot_append)

lemma typed_length: "typed T h \<Longrightarrow> length T = length h"
  by (simp add: typed_def list_all2_lengthD)

lemma typed_nth: "typed T h \<Longrightarrow> tag_at T a t \<Longrightarrow> a < length h \<and> conforms T t (h ! a)"
  by (auto simp: typed_def tag_at_def list_all2_conv_all_nth)

lemma typed_alloc:
  assumes "typed T h" "conforms (T @ [t]) t c"
  shows "typed (T @ [t]) (h @ [c])"
proof -
  have "list_all2 (conforms (T @ [t])) T h"
    using assms(1) unfolding typed_def
    by (rule list_all2_mono) (rule conforms_append)
  with assms(2) show ?thesis
    unfolding typed_def by (simp add: list_all2_appendI)
qed

lemma typed_store:
  "typed T h \<Longrightarrow> tag_at T a t \<Longrightarrow> conforms T t c \<Longrightarrow> typed T (store h a c)"
  by (auto simp: typed_def store_def tag_at_def list_all2_conv_all_nth nth_list_update)

lemma typed_message:
  "typed T h \<Longrightarrow> tag_at T a TMessage \<Longrightarrow> \<exists>m. load h a = Some (Message m) \<and> conforms T TMessage (Message m)"
  by (drule (1) typed_nth, cases "h ! a") (auto simp: load_def)

lemma typed_tool:
  "typed T h \<Longrightarrow> tag_at T a TTool \<Longrightarrow> \<exists>t. load h a = Some (Tool t)"
  by (drule (1) typed_nth, cases "h ! a") (auto simp: load_def)

lemma typed_file:
  "typed T h \<Longrightarrow> tag_at T a TFile \<Longrightarrow> \<exists>f. load h a = Some (File f) \<and> conforms T TFile (File f)"
  by (drule (1) typed_nth, cases "h ! a") (auto simp: load_def)

lemma typed_vals:
  "typed T h \<Longrightarrow> tag_at T a TVals \<Longrightarrow> \<exists>xs. load h a = Some (Array xs) \<and> list_all val_slot xs"
  by (drule (1) typed_nth, cases "h ! a") (auto simp: load_def)

lemma typed_refs:
  "typed T h \<Longrightarrow> tag_at T a (TRefs t) \<Longrightarrow> \<exists>xs. load h a = Some (Array xs) \<and> list_all (ref_slot T t) xs"
  by (drule (1) typed_nth, cases "h ! a") (auto simp: load_def)

lemma push_val:
  assumes "typed T h" "tag_at T a TVals"
  shows "\<exists>xs. load h a = Some (Array xs) \<and> push h a (Val v) = Some (store h a (Array (xs @ [Val v])))
     \<and> typed T (store h a (Array (xs @ [Val v])))"
proof -
  from typed_vals [OF assms] obtain xs where xs: "load h a = Some (Array xs)" "list_all val_slot xs"
    by blast
  then have "conforms T TVals (Array (xs @ [Val v]))" by simp
  from typed_store [OF assms this] xs show ?thesis
    by (simp add: push_def load_array_def)
qed

lemma push_ref:
  assumes "typed T h" "tag_at T a (TRefs t)" "tag_at T r t"
  shows "\<exists>xs. load h a = Some (Array xs) \<and> push h a (Ref r) = Some (store h a (Array (xs @ [Ref r])))
     \<and> typed T (store h a (Array (xs @ [Ref r])))"
proof -
  from typed_refs [OF assms(1,2)] obtain xs
    where xs: "load h a = Some (Array xs)" "list_all (ref_slot T t) xs"
    by blast
  with assms(3) have "conforms T (TRefs t) (Array (xs @ [Ref r]))" by simp
  from typed_store [OF assms(1,2) this] xs show ?thesis
    by (simp add: push_def load_array_def)
qed

lemma same_below_refl: "k \<le> length h \<Longrightarrow> same_below k h h"
  by (simp add: same_below_def)

lemma same_below_trans: "same_below k h h1 \<Longrightarrow> same_below k h1 h2 \<Longrightarrow> same_below k h h2"
  by (simp add: same_below_def)

lemma same_below_alloc: "k \<le> length h \<Longrightarrow> same_below k h (h @ [c])"
  by (simp add: same_below_def)

lemma same_below_store: "k \<le> length h \<Longrightarrow> k \<le> a \<Longrightarrow> same_below k h (store h a c)"
  by (simp add: same_below_def store_def)

lemma same_below_mono: "same_below k h h' \<Longrightarrow> j \<le> k \<Longrightarrow> same_below j h h'"
  by (auto simp: same_below_def min_def dest: arg_cong [where f = "take j"])

lemma invD:
  assumes "inv k T (h, ag)"
  obtains m where "typed T h" "tag_at T (currentMessage ag) TMessage" "k \<le> currentMessage ag"
    "load h (currentMessage ag) = Some (Message m)" "msg_above k m"
    "conforms T TMessage (Message m)" "tool_ok k T (currentTool ag)"
    "file_ok k T h (currentFile ag)" "currentMessage ag < length h" "k \<le> length h"
proof -
  from assms have t: "typed T h" "tag_at T (currentMessage ag) TMessage" "k \<le> currentMessage ag"
    "tool_ok k T (currentTool ag)" "file_ok k T h (currentFile ag)"
    by (simp_all add: inv_def)
  from typed_message [OF t(1,2)] obtain m
    where m: "load h (currentMessage ag) = Some (Message m)" "conforms T TMessage (Message m)"
    by blast
  with assms have "msg_above k m" by (simp add: inv_def load_message_def)
  moreover from m(1) have "currentMessage ag < length h" by (simp add: load_def split: if_splits)
  ultimately show ?thesis using t m that by simp
qed

lemma load_file_store:
  "tag_at T f TFile \<Longrightarrow> tag_at T a t \<Longrightarrow> t \<noteq> TFile \<Longrightarrow> load_file (store h a c) f = load_file h f"
  by (auto simp: load_file_def load_store tag_at_def)

lemma file_ok_store:
  "file_ok k T h x \<Longrightarrow> tag_at T a t \<Longrightarrow> t \<noteq> TFile \<Longrightarrow> file_ok k T (store h a c) x"
  by (cases x) (auto simp: file_ok_def load_file_store)

lemma file_ok_alloc:
  "file_ok k T h x \<Longrightarrow> length T = length h \<Longrightarrow> file_ok k (T @ [t]) (h @ [c]) x"
  by (cases x) (auto simp: file_ok_def load_file_def load_alloc tag_at_def nth_append split: option.splits)

lemma tool_ok_append: "tool_ok k T x \<Longrightarrow> tool_ok k (T @ X) x"
  by (cases x) (auto simp: tool_ok_def tag_at_append)

lemma invI:
  assumes "typed T h" "tag_at T (currentMessage ag) TMessage" "k \<le> currentMessage ag"
    "load h (currentMessage ag) = Some (Message m)" "msg_above k m"
    "tool_ok k T (currentTool ag)" "file_ok k T h (currentFile ag)"
  shows "inv k T (h, ag)"
  using assms by (simp add: inv_def load_message_def)


lemma inv_alloc:
  assumes "inv k T (h, ag)" "conforms (T @ [t]) t c"
  shows "inv k (T @ [t]) (h @ [c], ag)" "same_below k h (h @ [c])" "tag_at (T @ [t]) (length h) t"
proof -
  from assms(1) obtain m where m: "typed T h" "tag_at T (currentMessage ag) TMessage"
    "k \<le> currentMessage ag" "load h (currentMessage ag) = Some (Message m)" "msg_above k m"
    "conforms T TMessage (Message m)" "tool_ok k T (currentTool ag)"
    "file_ok k T h (currentFile ag)" "currentMessage ag < length h" "k \<le> length h"
    by (rule invD)
  have l: "length T = length h" using m(1) by (rule typed_length)
  have "typed (T @ [t]) (h @ [c])" using m(1) assms(2) by (rule typed_alloc)
  moreover have "load (h @ [c]) (currentMessage ag) = Some (Message m)"
    using m(4,9) by (simp add: load_alloc)
  ultimately show "inv k (T @ [t]) (h @ [c], ag)"
    using m(2,3,5,7,8) l
    by (intro invI) (simp_all add: tag_at_append tool_ok_append file_ok_alloc)
  show "same_below k h (h @ [c])" using m(10) by (rule same_below_alloc)
  show "tag_at (T @ [t]) (length h) t" using tag_at_new [of T t] l by simp
qed

lemma inv_push:
  assumes "inv k T (h, ag)" "tag_at T a tg" "k \<le> a"
    and "tg = TVals \<and> val_slot x \<or> (\<exists>t. tg = TRefs t \<and> ref_slot T t x)"
  shows "\<exists>h'. push h a x = Some h' \<and> inv k T (h', ag) \<and> same_below k h h' \<and> length h' = length h"
proof -
  from assms(1) obtain m where m: "typed T h" "tag_at T (currentMessage ag) TMessage"
    "k \<le> currentMessage ag" "load h (currentMessage ag) = Some (Message m)" "msg_above k m"
    "conforms T TMessage (Message m)" "tool_ok k T (currentTool ag)"
    "file_ok k T h (currentFile ag)" "currentMessage ag < length h" "k \<le> length h"
    by (rule invD)
  from typed_nth [OF m(1) assms(2)] have c: "a < length h" "conforms T tg (h ! a)" by simp_all
  from assms(4) c(2) obtain xs where xs: "h ! a = Array xs" "conforms T tg (Array (xs @ [x]))"
    by (cases "h ! a") auto
  let ?h = "store h a (Array (xs @ [x]))"
  have p: "push h a x = Some ?h" using c(1) xs(1) by (simp add: push_def load_array_def load_def)
  have tg: "tg \<noteq> TMessage" "tg \<noteq> TFile" using assms(4) by auto
  have "typed T ?h" using m(1) assms(2) xs(2) by (rule typed_store)
  moreover have "load ?h (currentMessage ag) = Some (Message m)"
    using m(4) tag_at_neq [OF assms(2) m(2) tg(1)] by (simp add: load_store)
  moreover have "file_ok k T ?h (currentFile ag)" using m(8) assms(2) tg(2) by (rule file_ok_store)
  ultimately have "inv k T (?h, ag)" using m(2,3,5,7) by (intro invI) simp_all
  moreover have "same_below k h ?h" using m(10) assms(3) by (rule same_below_store)
  ultimately show ?thesis using p by simp
qed

lemma inv_slots:
  assumes "inv k T (h, ag)"
  shows "inv k T (h, ag\<lparr>currentTool := None\<rparr>)"
    and "tag_at T r TTool \<Longrightarrow> k \<le> r \<Longrightarrow> inv k T (h, ag\<lparr>currentTool := Some r\<rparr>)"
    and "inv k T (h, ag\<lparr>currentBash := b\<rparr>)"
    and "tag_at T f TFile \<Longrightarrow> load_file h f = Some c \<Longrightarrow> k \<le> additions c \<Longrightarrow> k \<le> removals c \<Longrightarrow>
         inv k T (h, ag\<lparr>currentFile := Some f\<rparr>)"
  using assms by (simp_all add: inv_def tool_ok_def file_ok_def)

lemma inv_msg_tags:
  assumes "inv k T (h, ag)" "load_message h (currentMessage ag) = Some m"
  shows "tag_at T (tool_calls m) (TRefs TTool)" "tag_at T (file_changes m) (TRefs TFile)"
    "tag_at T (bash_commands m) (TRefs TBash)" "tag_at T (errors m) (TRefs TErr)"
    "tag_at T (thinking m) TVals" "msg_above k m"
proof -
  from assms(1) obtain m' where m: "load h (currentMessage ag) = Some (Message m')"
    "msg_above k m'" "conforms T TMessage (Message m')"
    by (rule invD)
  with assms(2) have "m' = m" by (simp add: load_message_def)
  with m show "tag_at T (tool_calls m) (TRefs TTool)" "tag_at T (file_changes m) (TRefs TFile)"
    "tag_at T (bash_commands m) (TRefs TBash)" "tag_at T (errors m) (TRefs TErr)"
    "tag_at T (thinking m) TVals" "msg_above k m"
    by simp_all
qed

lemma inv_load_message:
  assumes "inv k T (h, ag)"
  shows "\<exists>m. load_message h (currentMessage ag) = Some m"
  using assms by (auto simp: load_message_def elim: invD)

lemma movesI: "r = Some (h', ag') \<Longrightarrow> inv k T' (h', ag') \<Longrightarrow> same_below k h h' \<Longrightarrow> moves k (h, ag) r"
  by (auto simp: moves_def)

lemma load_message_alloc:
  "load_message h a = Some m \<Longrightarrow> load_message (h @ [c]) a = Some m"
  by (auto simp: load_message_def load_alloc load_def nth_append split: if_splits)

lemma moves_text:
  assumes "inv k T (h, ag)" "event_type e = js ''text''"
  shows "moves k (h, ag) (addEvent (h, ag) e)"
proof -
  from assms(1) obtain m where m: "typed T h" "tag_at T (currentMessage ag) TMessage"
    "k \<le> currentMessage ag" "load h (currentMessage ag) = Some (Message m)" "msg_above k m"
    "conforms T TMessage (Message m)" "tool_ok k T (currentTool ag)"
    "file_ok k T h (currentFile ag)" "currentMessage ag < length h" "k \<le> length h"
    by (rule invD)
  let ?m = "m\<lparr>content := content m @ toString (field (data e) ''content'') @ [0x0A]\<rparr>"
  let ?h = "store h (currentMessage ag) (Message ?m)"
  have r: "addEvent (h, ag) e = Some (?h, ag)"
    using assms(2) m(4) by (simp add: addEvent_def load_message_def)
  have "conforms T TMessage (Message ?m)" using m(6) by simp
  then have "typed T ?h" by (rule typed_store [OF m(1,2)])
  moreover have "load ?h (currentMessage ag) = Some (Message ?m)"
    using m(9) by (simp add: load_store)
  moreover have "msg_above k ?m" using m(5) by (simp add: msg_above_def)
  moreover have "file_ok k T ?h (currentFile ag)"
    using m(8,2) by (rule file_ok_store) simp
  ultimately have "inv k T (?h, ag)" using m(2,3,7) by (intro invI) simp_all
  moreover have "same_below k h ?h" using m(3,10) by (simp add: same_below_store)
  ultimately show ?thesis using r by (intro movesI)
qed

lemma addEvent_tool_call:
  "event_type e = js ''tool_call'' \<Longrightarrow> addEvent (h, ag) e = do {
       let (h1, t) = alloc h (Tool \<lparr>name = field (data e) ''tool_name'',
                 parameters = field (data e) ''parameters'',
                 status = field (data e) ''status'', result = Null, success = Undefined\<rparr>);
       m \<leftarrow> load_message h1 (currentMessage ag);
       h2 \<leftarrow> push h1 (tool_calls m) (Ref t);
       Some (h2, ag\<lparr>currentTool := Some t\<rparr>) }"
  by (simp add: addEvent_def js_def Let_def)

lemma addEvent_tool_result:
  "event_type e = js ''tool_result'' \<Longrightarrow> addEvent (h, ag) e =
       (case currentTool ag of
          Some t \<Rightarrow> do {
            c \<leftarrow> load_tool h t;
            Some (store h t (Tool (c\<lparr>result := field (data e) ''result'',
                      success := field (data e) ''success''\<rparr>)),
                  ag\<lparr>currentTool := None\<rparr>)
          }
        | None \<Rightarrow> Some (h, ag))"
  by (simp add: addEvent_def js_def Let_def)

lemma addEvent_file_edit:
  "event_type e = js ''file_edit'' \<Longrightarrow> addEvent (h, ag) e = do {
       let (h1, ad) = alloc h (Array []);
       let (h2, rm) = alloc h1 (Array []);
       let (h3, f) = alloc h2 (File \<lparr>file_path = field (data e) ''file_path'',
                     action = field (data e) ''action'', additions = ad, removals = rm\<rparr>);
       m \<leftarrow> load_message h3 (currentMessage ag);
       h4 \<leftarrow> push h3 (file_changes m) (Ref f);
       Some (h4, ag\<lparr>currentFile := Some f\<rparr>) }"
  by (simp add: addEvent_def js_def Let_def)

lemma addEvent_diff_add:
  "event_type e = js ''diff_add'' \<Longrightarrow> addEvent (h, ag) e =
       (case currentFile ag of
          Some f \<Rightarrow> do {
            c \<leftarrow> load_file h f;
            h1 \<leftarrow> push h (additions c) (Val (field (data e) ''content''));
            Some (h1, ag)
          }
        | None \<Rightarrow> Some (h, ag))"
  by (simp add: addEvent_def js_def Let_def)

lemma addEvent_diff_remove:
  "event_type e = js ''diff_remove'' \<Longrightarrow> addEvent (h, ag) e =
       (case currentFile ag of
          Some f \<Rightarrow> do {
            c \<leftarrow> load_file h f;
            h1 \<leftarrow> push h (removals c) (Val (field (data e) ''content''));
            Some (h1, ag)
          }
        | None \<Rightarrow> Some (h, ag))"
  by (simp add: addEvent_def js_def Let_def)

lemma addEvent_bash_command:
  "event_type e = js ''bash_command'' \<Longrightarrow> addEvent (h, ag) e = do {
       let (h1, b) = alloc h (Bash \<lparr>command = field (data e) ''command'', output' = [],
                        exit_code = Null\<rparr>);
       m \<leftarrow> load_message h1 (currentMessage ag);
       h2 \<leftarrow> push h1 (bash_commands m) (Ref b);
       Some (h2, ag\<lparr>currentBash := Some b\<rparr>) }"
  by (simp add: addEvent_def js_def Let_def)

lemma addEvent_thinking:
  "event_type e = js ''thinking'' \<Longrightarrow> addEvent (h, ag) e = do {
       m \<leftarrow> load_message h (currentMessage ag);
       h1 \<leftarrow> push h (thinking m) (Val (field (data e) ''content''));
       Some (h1, ag) }"
  by (simp add: addEvent_def js_def Let_def)

lemma addEvent_error:
  "event_type e = js ''error'' \<Longrightarrow> addEvent (h, ag) e = do {
       m \<leftarrow> load_message h (currentMessage ag);
       let (h1, x) = alloc h (Err \<lparr>message = field (data e) ''message'',
                        source = field (data e) ''source''\<rparr>);
       h2 \<leftarrow> push h1 (errors m) (Ref x);
       Some (h2, ag) }"
  by (simp add: addEvent_def js_def Let_def)

lemma moves_push_new:
  assumes i: "inv k T (h1, ag)" and s: "same_below k h h1"
    and m: "load_message h1 (currentMessage ag) = Some m"
    and a: "tag_at T a (TRefs t)" "k \<le> a" and r: "tag_at T r t"
  obtains h2 where "push h1 a (Ref r) = Some h2" "inv k T (h2, ag)" "same_below k h h2"
    "length h2 = length h1"
proof -
  from inv_push [OF i a, of "Ref r"] r obtain h2
    where "push h1 a (Ref r) = Some h2" "inv k T (h2, ag)" "same_below k h1 h2" "length h2 = length h1"
    by auto
  with s that show ?thesis by (blast intro: same_below_trans)
qed

lemma moves_tool_call:
  assumes "inv k T (h, ag)" "event_type e = js ''tool_call''"
  shows "moves k (h, ag) (addEvent (h, ag) e)"
proof -
  let ?c = "Tool \<lparr>name = field (data e) ''tool_name'', parameters = field (data e) ''parameters'',
      status = field (data e) ''status'', result = Null, success = Undefined\<rparr>"
  have kl: "k \<le> length h" using assms(1) by (rule invD)
  have 1: "inv k (T @ [TTool]) (h @ [?c], ag)" "same_below k h (h @ [?c])"
    "tag_at (T @ [TTool]) (length h) TTool"
    using inv_alloc [OF assms(1), of TTool ?c] by simp_all
  from inv_load_message [OF 1(1)] obtain m
    where m: "load_message (h @ [?c]) (currentMessage ag) = Some m" by blast
  from inv_msg_tags [OF 1(1) m] have t: "tag_at (T @ [TTool]) (tool_calls m) (TRefs TTool)"
    "k \<le> tool_calls m" by (simp_all add: msg_above_def)
  from moves_push_new [OF 1(1,2) m t 1(3)] obtain h2
    where h2: "push (h @ [?c]) (tool_calls m) (Ref (length h)) = Some h2"
      "inv k (T @ [TTool]) (h2, ag)" "same_below k h h2" by blast
  have "inv k (T @ [TTool]) (h2, ag\<lparr>currentTool := Some (length h)\<rparr>)"
    using h2(2) 1(3) kl by (rule inv_slots(2))
  moreover have "addEvent (h, ag) e = Some (h2, ag\<lparr>currentTool := Some (length h)\<rparr>)"
    using m h2(1) by (simp add: addEvent_tool_call [OF assms(2)] alloc_def)
  ultimately show ?thesis using h2(3) by (intro movesI)
qed

lemma moves_bash_command:
  assumes "inv k T (h, ag)" "event_type e = js ''bash_command''"
  shows "moves k (h, ag) (addEvent (h, ag) e)"
proof -
  let ?c = "Bash \<lparr>command = field (data e) ''command'', output' = [], exit_code = Null\<rparr>"
  have 1: "inv k (T @ [TBash]) (h @ [?c], ag)" "same_below k h (h @ [?c])"
    "tag_at (T @ [TBash]) (length h) TBash"
    using inv_alloc [OF assms(1), of TBash ?c] by simp_all
  from inv_load_message [OF 1(1)] obtain m
    where m: "load_message (h @ [?c]) (currentMessage ag) = Some m" by blast
  from inv_msg_tags [OF 1(1) m] have t: "tag_at (T @ [TBash]) (bash_commands m) (TRefs TBash)"
    "k \<le> bash_commands m" by (simp_all add: msg_above_def)
  from moves_push_new [OF 1(1,2) m t 1(3)] obtain h2
    where h2: "push (h @ [?c]) (bash_commands m) (Ref (length h)) = Some h2"
      "inv k (T @ [TBash]) (h2, ag)" "same_below k h h2" by blast
  have "inv k (T @ [TBash]) (h2, ag\<lparr>currentBash := Some (length h)\<rparr>)"
    using h2(2) by (rule inv_slots(3))
  moreover have "addEvent (h, ag) e = Some (h2, ag\<lparr>currentBash := Some (length h)\<rparr>)"
    using m h2(1) by (simp add: addEvent_bash_command [OF assms(2)] alloc_def)
  ultimately show ?thesis using h2(3) by (intro movesI)
qed

lemma moves_error:
  assumes "inv k T (h, ag)" "event_type e = js ''error''"
  shows "moves k (h, ag) (addEvent (h, ag) e)"
proof -
  let ?c = "Err \<lparr>message = field (data e) ''message'', source = field (data e) ''source''\<rparr>"
  have 1: "inv k (T @ [TErr]) (h @ [?c], ag)" "same_below k h (h @ [?c])"
    "tag_at (T @ [TErr]) (length h) TErr"
    using inv_alloc [OF assms(1), of TErr ?c] by simp_all
  from inv_load_message [OF assms(1)] obtain m
    where m0: "load_message h (currentMessage ag) = Some m" by blast
  then have m: "load_message (h @ [?c]) (currentMessage ag) = Some m"
    by (rule load_message_alloc)
  from inv_msg_tags [OF 1(1) m] have t: "tag_at (T @ [TErr]) (errors m) (TRefs TErr)"
    "k \<le> errors m" by (simp_all add: msg_above_def)
  from moves_push_new [OF 1(1,2) m t 1(3)] obtain h2
    where h2: "push (h @ [?c]) (errors m) (Ref (length h)) = Some h2"
      "inv k (T @ [TErr]) (h2, ag)" "same_below k h h2" by blast
  have "addEvent (h, ag) e = Some (h2, ag)"
    using m0 h2(1) by (simp add: addEvent_error [OF assms(2)] alloc_def)
  then show ?thesis using h2(2,3) by (rule movesI)
qed

lemma moves_thinking:
  assumes "inv k T (h, ag)" "event_type e = js ''thinking''"
  shows "moves k (h, ag) (addEvent (h, ag) e)"
proof -
  from inv_load_message [OF assms(1)] obtain m
    where m: "load_message h (currentMessage ag) = Some m" by blast
  from inv_msg_tags [OF assms(1) m] have t: "tag_at T (thinking m) TVals" "k \<le> thinking m"
    by (simp_all add: msg_above_def)
  from inv_push [OF assms(1) t, of "Val (field (data e) ''content'')"] obtain h1
    where h1: "push h (thinking m) (Val (field (data e) ''content'')) = Some h1"
      "inv k T (h1, ag)" "same_below k h h1" by auto
  have "addEvent (h, ag) e = Some (h1, ag)"
    using m h1(1) by (simp add: addEvent_thinking [OF assms(2)])
  then show ?thesis using h1(2,3) by (rule movesI)
qed

lemma moves_same: "inv k T (h, ag) \<Longrightarrow> moves k (h, ag) (Some (h, ag))"
  by (rule movesI [OF refl]) (auto intro: same_below_refl elim: invD)

lemma moves_tool_result:
  assumes "inv k T (h, ag)" "event_type e = js ''tool_result''"
  shows "moves k (h, ag) (addEvent (h, ag) e)"
proof (cases "currentTool ag")
  case None
  with moves_same [OF assms(1)] show ?thesis by (simp add: addEvent_tool_result [OF assms(2)])
next
  case (Some t)
  from assms(1) obtain m where m: "typed T h" "tag_at T (currentMessage ag) TMessage"
    "k \<le> currentMessage ag" "load h (currentMessage ag) = Some (Message m)" "msg_above k m"
    "conforms T TMessage (Message m)" "tool_ok k T (currentTool ag)"
    "file_ok k T h (currentFile ag)" "currentMessage ag < length h" "k \<le> length h"
    by (rule invD)
  from m(7) Some have t: "tag_at T t TTool" "k \<le> t" by (simp_all add: tool_ok_def)
  from typed_tool [OF m(1) t(1)] obtain c where c: "load h t = Some (Tool c)" by blast
  let ?c = "Tool (c\<lparr>result := field (data e) ''result'', success := field (data e) ''success''\<rparr>)"
  let ?h = "store h t ?c"
  have r: "addEvent (h, ag) e = Some (?h, ag\<lparr>currentTool := None\<rparr>)"
    using Some c by (simp add: addEvent_tool_result [OF assms(2)] load_tool_def)
  have "typed T ?h" using m(1) t(1) by (rule typed_store) simp
  moreover have "load ?h (currentMessage ag) = Some (Message m)"
    using m(4) tag_at_neq [OF t(1) m(2)] by (simp add: load_store)
  moreover have "file_ok k T ?h (currentFile ag)" using m(8) t(1) by (rule file_ok_store) simp
  ultimately have "inv k T (?h, ag)" using m(2,3,5,7) by (intro invI) simp_all
  then have "inv k T (?h, ag\<lparr>currentTool := None\<rparr>)" by (rule inv_slots(1))
  moreover have "same_below k h ?h" using m(10) t(2) by (rule same_below_store)
  ultimately show ?thesis using r by (intro movesI)
qed

lemma moves_diff:
  assumes "inv k T (h, ag)" "currentFile ag = Some f" "load_file h f = Some c"
  shows "moves k (h, ag) (do { h1 \<leftarrow> push h (additions c) (Val v); Some (h1, ag) })"
    and "moves k (h, ag) (do { h1 \<leftarrow> push h (removals c) (Val v); Some (h1, ag) })"
proof -
  from assms(1) have ty: "typed T h" and fo: "file_ok k T h (currentFile ag)" by (auto elim: invD)
  from fo assms(2,3) have f: "tag_at T f TFile" "k \<le> additions c" "k \<le> removals c"
    by (simp_all add: file_ok_def)
  from typed_file [OF ty f(1)] assms(3)
  have t: "tag_at T (additions c) TVals" "tag_at T (removals c) TVals"
    by (auto simp: load_file_def)
  from inv_push [OF assms(1) t(1) f(2), of "Val v"] obtain h1
    where h1: "push h (additions c) (Val v) = Some h1" "inv k T (h1, ag)" "same_below k h h1"
    by auto
  have "(do { h1 \<leftarrow> push h (additions c) (Val v); Some (h1, ag) }) = Some (h1, ag)"
    using h1(1) by simp
  then show "moves k (h, ag) (do { h1 \<leftarrow> push h (additions c) (Val v); Some (h1, ag) })"
    using h1(2,3) by (rule movesI)
  from inv_push [OF assms(1) t(2) f(3), of "Val v"] obtain h2
    where h2: "push h (removals c) (Val v) = Some h2" "inv k T (h2, ag)" "same_below k h h2"
    by auto
  have "(do { h1 \<leftarrow> push h (removals c) (Val v); Some (h1, ag) }) = Some (h2, ag)"
    using h2(1) by simp
  then show "moves k (h, ag) (do { h1 \<leftarrow> push h (removals c) (Val v); Some (h1, ag) })"
    using h2(2,3) by (rule movesI)
qed

lemma inv_load_file:
  assumes "inv k T (h, ag)" "currentFile ag = Some f"
  shows "\<exists>c. load_file h f = Some c"
proof -
  from assms(1) have "file_ok k T h (currentFile ag)" by (rule invD)
  with assms(2) show ?thesis by (auto simp: file_ok_def split: option.splits)
qed

lemma moves_diff_add:
  assumes "inv k T (h, ag)" "event_type e = js ''diff_add''"
  shows "moves k (h, ag) (addEvent (h, ag) e)"
proof (cases "currentFile ag")
  case None
  with moves_same [OF assms(1)] show ?thesis by (simp add: addEvent_diff_add [OF assms(2)])
next
  case (Some f)
  from inv_load_file [OF assms(1) Some] obtain c where c: "load_file h f = Some c" by blast
  from moves_diff(1) [OF assms(1) Some c] Some c show ?thesis
    by (simp add: addEvent_diff_add [OF assms(2)])
qed

lemma moves_diff_remove:
  assumes "inv k T (h, ag)" "event_type e = js ''diff_remove''"
  shows "moves k (h, ag) (addEvent (h, ag) e)"
proof (cases "currentFile ag")
  case None
  with moves_same [OF assms(1)] show ?thesis by (simp add: addEvent_diff_remove [OF assms(2)])
next
  case (Some f)
  from inv_load_file [OF assms(1) Some] obtain c where c: "load_file h f = Some c" by blast
  from moves_diff(2) [OF assms(1) Some c] Some c show ?thesis
    by (simp add: addEvent_diff_remove [OF assms(2)])
qed

lemma load_push_other: "push h a x = Some h' \<Longrightarrow> b \<noteq> a \<Longrightarrow> load h' b = load h b"
  by (auto simp: push_def load_store split: Option.bind_splits)

lemma moves_file_edit:
  assumes "inv k T (h, ag)" "event_type e = js ''file_edit''"
  shows "moves k (h, ag) (addEvent (h, ag) e)"
proof -
  let ?f = "\<lparr>file_path = field (data e) ''file_path'', action = field (data e) ''action'',
      additions = length h, removals = Suc (length h)\<rparr>"
  let ?T = "T @ [TVals] @ [TVals] @ [TFile]"
  let ?h = "h @ [Array []] @ [Array []] @ [File ?f]"
  have kl: "k \<le> length h" using assms(1) by (rule invD)
  have l: "length T = length h" using assms(1) by (auto elim: invD dest: typed_length)
  have 1: "inv k (T @ [TVals]) (h @ [Array []], ag)" "same_below k h (h @ [Array []])"
    using inv_alloc [OF assms(1), of TVals "Array []"] by simp_all
  have 2: "inv k ((T @ [TVals]) @ [TVals]) ((h @ [Array []]) @ [Array []], ag)"
    "same_below k (h @ [Array []]) ((h @ [Array []]) @ [Array []])"
    using inv_alloc [OF 1(1), of TVals "Array []"] by simp_all
  have c: "conforms (((T @ [TVals]) @ [TVals]) @ [TFile]) TFile (File ?f)"
    using l by (simp add: tag_at_def nth_append)
  have 3: "inv k ?T (?h, ag)" "same_below k ((h @ [Array []]) @ [Array []]) ?h"
    "tag_at ?T (Suc (Suc (length h))) TFile"
    using inv_alloc [OF 2(1) c] by simp_all
  have s: "same_below k h ?h" using 1(2) 2(2) 3(2) by (blast intro: same_below_trans)
  from inv_load_message [OF 3(1)] obtain m
    where m: "load_message ?h (currentMessage ag) = Some m" by blast
  from inv_msg_tags [OF 3(1) m] have t: "tag_at ?T (file_changes m) (TRefs TFile)"
    "k \<le> file_changes m" by (simp_all add: msg_above_def)
  from moves_push_new [OF 3(1) s m t 3(3)] obtain h4
    where h4: "push ?h (file_changes m) (Ref (Suc (Suc (length h)))) = Some h4"
      "inv k ?T (h4, ag)" "same_below k h h4" "length h4 = length ?h" by blast
  have "file_changes m \<noteq> Suc (Suc (length h))"
    using tag_at_neq [OF t(1) 3(3)] by simp
  from load_push_other [OF h4(1) this [symmetric]]
  have "load_file h4 (Suc (Suc (length h))) = Some ?f"
    by (simp add: load_file_def load_def nth_append)
  from inv_slots(4) [OF h4(2) 3(3) this] kl
  have "inv k ?T (h4, ag\<lparr>currentFile := Some (Suc (Suc (length h)))\<rparr>)"
    by simp
  moreover have "addEvent (h, ag) e = Some (h4, ag\<lparr>currentFile := Some (Suc (Suc (length h)))\<rparr>)"
    using m h4(1) by (simp add: addEvent_file_edit [OF assms(2)] alloc_def)
  ultimately show ?thesis using h4(3) by (intro movesI)
qed

lemma addEvent_other: "event_type e \<notin> set handled \<Longrightarrow> addEvent st e = Some st"
  by (cases st) (simp add: addEvent_def handled_def)

lemma addEvent_moves:
  assumes "inv k T (h, ag)"
  shows "moves k (h, ag) (addEvent (h, ag) e)"
proof -
  consider "event_type e = js ''text''" | "event_type e = js ''tool_call''"
    | "event_type e = js ''tool_result''" | "event_type e = js ''file_edit''"
    | "event_type e = js ''diff_add''" | "event_type e = js ''diff_remove''"
    | "event_type e = js ''bash_command''" | "event_type e = js ''thinking''"
    | "event_type e = js ''error''" | "event_type e \<notin> set handled"
    by (auto simp: handled_def)
  then show ?thesis
  proof cases
    case 10
    with moves_same [OF assms] show ?thesis by (simp add: addEvent_other)
  qed (use assms in \<open>simp_all add: moves_text moves_tool_call moves_tool_result moves_file_edit
      moves_diff_add moves_diff_remove moves_bash_command moves_thinking moves_error\<close>)
qed

lemma reset_inv:
  assumes "typed T h"
  shows "\<exists>T'. inv (length h) T' (reset h)" "same_below (length h) h (fst (reset h))"
proof -
  let ?T = "T @ [TRefs TTool] @ [TRefs TFile] @ [TRefs TBash] @ [TRefs TErr] @ [TVals] @ [TMessage]"
  let ?n = "length h"
  let ?m = "\<lparr>content = [], tool_calls = ?n, file_changes = ?n + 1, bash_commands = ?n + 2,
     errors = ?n + 3, thinking = ?n + 4\<rparr>"
  let ?h = "h @ [Array []] @ [Array []] @ [Array []] @ [Array []] @ [Array []] @ [Message ?m]"
  have l: "length T = length h" using assms by (rule typed_length)
  have r: "reset h = (?h, \<lparr>currentMessage = ?n + 5, currentTool = None, currentFile = None,
      currentBash = None\<rparr>)"
    by (simp add: reset_def alloc_def)
  have 1: "typed (T @ [TRefs TTool]) (h @ [Array []])" using assms by (rule typed_alloc) simp
  then have 2: "typed ((T @ [TRefs TTool]) @ [TRefs TFile]) ((h @ [Array []]) @ [Array []])"
    by (rule typed_alloc) simp
  then have 3: "typed (((T @ [TRefs TTool]) @ [TRefs TFile]) @ [TRefs TBash])
      (((h @ [Array []]) @ [Array []]) @ [Array []])"
    by (rule typed_alloc) simp
  then have 4: "typed ((((T @ [TRefs TTool]) @ [TRefs TFile]) @ [TRefs TBash]) @ [TRefs TErr])
      ((((h @ [Array []]) @ [Array []]) @ [Array []]) @ [Array []])"
    by (rule typed_alloc) simp
  then have 5: "typed (((((T @ [TRefs TTool]) @ [TRefs TFile]) @ [TRefs TBash]) @ [TRefs TErr]) @ [TVals])
      (((((h @ [Array []]) @ [Array []]) @ [Array []]) @ [Array []]) @ [Array []])"
    by (rule typed_alloc) simp
  then have "typed ((((((T @ [TRefs TTool]) @ [TRefs TFile]) @ [TRefs TBash]) @ [TRefs TErr]) @ [TVals]) @ [TMessage])
      ((((((h @ [Array []]) @ [Array []]) @ [Array []]) @ [Array []]) @ [Array []]) @ [Message ?m])"
    by (rule typed_alloc) (simp add: tag_at_def nth_append l)
  then have t: "typed ?T ?h" by simp
  have "inv ?n ?T (reset h)"
    unfolding r
    by (rule invI [where m = ?m])
       (use t in \<open>simp_all add: tag_at_def nth_append l load_def msg_above_def tool_ok_def file_ok_def\<close>)
  then show "\<exists>T'. inv (length h) T' (reset h)" by blast
  show "same_below (length h) h (fst (reset h))" by (simp add: r same_below_def)
qed

lemma inv_mono: "inv k T st \<Longrightarrow> j \<le> k \<Longrightarrow> inv j T st"
  by (auto simp: inv_def msg_above_def tool_ok_def file_ok_def split: option.splits)

subsection \<open>Reading through the store\<close>

lemma those_map_mono:
  "those (map f xs) = Some ys \<Longrightarrow> (\<And>x y. f x = Some y \<Longrightarrow> g x = Some y) \<Longrightarrow>
   those (map g xs) = Some ys"
  by (induction xs arbitrary: ys) (auto split: option.splits)

lemma those_map_defined:
  "(\<And>x. x \<in> set xs \<Longrightarrow> \<exists>y. f x = Some y) \<Longrightarrow> \<exists>ys. those (map f xs) = Some ys"
proof (induction xs)
  case Nil
  show ?case by simp
next
  case (Cons x xs)
  then obtain y ys where "f x = Some y" "those (map f xs) = Some ys" by fastforce
  then show ?case by simp
qed

text \<open>\<open>h\<close> is an initial part of \<open>h'\<close>: whatever is read in \<open>h\<close> reads the same in \<open>h'\<close>.\<close>

lemma load_same:
  "load h a = Some c \<Longrightarrow> same_below (length h) h h' \<Longrightarrow> load h' a = Some c"
proof -
  assume l: "load h a = Some c" and s: "same_below (length h) h h'"
  from l have a: "a < length h" "h ! a = c" by (auto simp: load_def split: if_splits)
  from s have "take (length h) h' = h" "length h \<le> length h'" by (simp_all add: same_below_def)
  then have "h' ! a = h ! a" "a < length h'" using a(1) by (metis nth_take, simp)
  with a show ?thesis by (simp add: load_def)
qed

lemma loaders_same:
  assumes "same_below (length h) h h'"
  shows "load_message h a = Some m \<Longrightarrow> load_message h' a = Some m"
    and "load_tool h a = Some t \<Longrightarrow> load_tool h' a = Some t"
    and "load_file h a = Some f \<Longrightarrow> load_file h' a = Some f"
    and "load_bash h a = Some b \<Longrightarrow> load_bash h' a = Some b"
    and "load_err h a = Some e \<Longrightarrow> load_err h' a = Some e"
    and "load_array h a = Some xs \<Longrightarrow> load_array h' a = Some xs"
proof -
  have l: "\<And>c. load h a = Some c \<Longrightarrow> load h' a = Some c" by (rule load_same [OF _ assms])
  show "load_message h a = Some m \<Longrightarrow> load_message h' a = Some m"
    by (cases "load h a") (auto simp: load_message_def dest: l)
  show "load_tool h a = Some t \<Longrightarrow> load_tool h' a = Some t"
    by (cases "load h a") (auto simp: load_tool_def dest: l)
  show "load_file h a = Some f \<Longrightarrow> load_file h' a = Some f"
    by (cases "load h a") (auto simp: load_file_def dest: l)
  show "load_bash h a = Some b \<Longrightarrow> load_bash h' a = Some b"
    by (cases "load h a") (auto simp: load_bash_def dest: l)
  show "load_err h a = Some e \<Longrightarrow> load_err h' a = Some e"
    by (cases "load h a") (auto simp: load_err_def dest: l)
  show "load_array h a = Some xs \<Longrightarrow> load_array h' a = Some xs"
    by (cases "load h a") (auto simp: load_array_def dest: l)
qed

lemma read_vals_same:
  assumes "read_vals h a = Some vs" "same_below (length h) h h'"
  shows "read_vals h' a = Some vs"
proof -
  from assms(1) obtain xs where xs: "load_array h a = Some xs" "those (map slot_val xs) = Some vs"
    by (auto simp: read_vals_def split: Option.bind_splits)
  from loaders_same(6) [OF assms(2) xs(1)] xs(2) show ?thesis by (simp add: read_vals_def)
qed

lemma read_refs_same:
  assumes "read_refs f h a = Some vs" "same_below (length h) h h'"
    and "\<And>r v. f r = Some v \<Longrightarrow> g r = Some v"
  shows "read_refs g h' a = Some vs"
proof -
  from assms(1) obtain xs where xs: "load_array h a = Some xs" "those (map (slot_ref f) xs) = Some vs"
    by (auto simp: read_refs_def split: Option.bind_splits)
  have "\<And>x y. slot_ref f x = Some y \<Longrightarrow> slot_ref g x = Some y"
    subgoal for x y by (cases x) (simp_all add: assms(3))
    done
  from those_map_mono [OF xs(2) this] loaders_same(6) [OF assms(2) xs(1)]
  show ?thesis by (simp add: read_refs_def)
qed

lemma read_file_same:
  assumes "read_file h a = Some v" "same_below (length h) h h'"
  shows "read_file h' a = Some v"
proof -
  from assms(1) obtain f ad rm where r: "load_file h a = Some f"
    "read_vals h (additions f) = Some ad" "read_vals h (removals f) = Some rm"
    "v = \<lparr>v_file_path = file_path f, v_action = action f, v_additions = ad, v_removals = rm\<rparr>"
    by (auto simp: read_file_def split: Option.bind_splits)
  from loaders_same(3) [OF assms(2) r(1)] read_vals_same [OF r(2) assms(2)]
    read_vals_same [OF r(3) assms(2)]
  show ?thesis by (simp add: read_file_def r(4))
qed

lemma read_message_same:
  assumes "read_message h a = Some v" "same_below (length h) h h'"
  shows "read_message h' a = Some v"
proof -
  from assms(1) obtain m tc fc bc er th where r: "load_message h a = Some m"
    "read_refs (load_tool h) h (tool_calls m) = Some tc"
    "read_refs (read_file h) h (file_changes m) = Some fc"
    "read_refs (load_bash h) h (bash_commands m) = Some bc"
    "read_refs (load_err h) h (errors m) = Some er"
    "read_vals h (thinking m) = Some th"
    "v = \<lparr>a_content = content m, a_tool_calls = tc, a_file_changes = fc,
           a_bash_commands = bc, a_errors = er, a_thinking = th\<rparr>"
    by (auto simp: read_message_def split: Option.bind_splits)
  note s = assms(2)
  have "load_message h' a = Some m" using r(1) by (rule loaders_same(1) [OF s])
  moreover have "read_refs (load_tool h') h' (tool_calls m) = Some tc"
    using r(2) s by (rule read_refs_same) (rule loaders_same(2) [OF s])
  moreover have "read_refs (read_file h') h' (file_changes m) = Some fc"
    using r(3) s by (rule read_refs_same) (rule read_file_same [OF _ s])
  moreover have "read_refs (load_bash h') h' (bash_commands m) = Some bc"
    using r(4) s by (rule read_refs_same) (rule loaders_same(4) [OF s])
  moreover have "read_refs (load_err h') h' (errors m) = Some er"
    using r(5) s by (rule read_refs_same) (rule loaders_same(5) [OF s])
  moreover have "read_vals h' (thinking m) = Some th"
    using r(6) s by (rule read_vals_same)
  ultimately show ?thesis by (simp add: read_message_def r(7))
qed

lemma read_vals_defined:
  assumes "typed T h" "tag_at T a TVals"
  shows "\<exists>vs. read_vals h a = Some vs"
proof -
  from typed_vals [OF assms] obtain xs where xs: "load h a = Some (Array xs)" "list_all val_slot xs"
    by blast
  have "\<exists>vs. those (map slot_val xs) = Some vs"
  proof (rule those_map_defined)
    fix x assume "x \<in> set xs"
    with xs(2) have "val_slot x" by (simp add: list_all_iff)
    then show "\<exists>y. slot_val x = Some y" by (cases x) simp_all
  qed
  with xs(1) show ?thesis by (simp add: read_vals_def load_array_def)
qed

lemma read_refs_defined:
  assumes "typed T h" "tag_at T a (TRefs t)"
    and "\<And>r. tag_at T r t \<Longrightarrow> \<exists>v. f r = Some v"
  shows "\<exists>vs. read_refs f h a = Some vs"
proof -
  from typed_refs [OF assms(1,2)] obtain xs
    where xs: "load h a = Some (Array xs)" "list_all (ref_slot T t) xs"
    by blast
  have "\<exists>vs. those (map (slot_ref f) xs) = Some vs"
  proof (rule those_map_defined)
    fix x assume "x \<in> set xs"
    with xs(2) have "ref_slot T t x" by (simp add: list_all_iff)
    then show "\<exists>y. slot_ref f x = Some y" by (cases x) (simp_all add: assms(3))
  qed
  with xs(1) show ?thesis by (simp add: read_refs_def load_array_def)
qed

lemma read_file_defined:
  assumes "typed T h" "tag_at T a TFile"
  shows "\<exists>v. read_file h a = Some v"
proof -
  from typed_file [OF assms] obtain f where f: "load h a = Some (File f)"
    "tag_at T (additions f) TVals" "tag_at T (removals f) TVals"
    by auto
  from read_vals_defined [OF assms(1) f(2)] read_vals_defined [OF assms(1) f(3)] f(1)
  show ?thesis by (auto simp: read_file_def load_file_def)
qed

lemma typed_bash:
  "typed T h \<Longrightarrow> tag_at T a TBash \<Longrightarrow> \<exists>b. load h a = Some (Bash b)"
  by (drule (1) typed_nth, cases "h ! a") (auto simp: load_def)

lemma typed_err:
  "typed T h \<Longrightarrow> tag_at T a TErr \<Longrightarrow> \<exists>e. load h a = Some (Err e)"
  by (drule (1) typed_nth, cases "h ! a") (auto simp: load_def)

lemma read_message_defined:
  assumes "typed T h" "tag_at T a TMessage"
  shows "\<exists>v. read_message h a = Some v"
proof -
  from typed_message [OF assms] obtain m where m: "load h a = Some (Message m)"
    "tag_at T (tool_calls m) (TRefs TTool)" "tag_at T (file_changes m) (TRefs TFile)"
    "tag_at T (bash_commands m) (TRefs TBash)" "tag_at T (errors m) (TRefs TErr)"
    "tag_at T (thinking m) TVals"
    by auto
  have "\<exists>vs. read_refs (load_tool h) h (tool_calls m) = Some vs"
    using assms(1) m(2) by (rule read_refs_defined) (auto simp: load_tool_def dest: typed_tool [OF assms(1)])
  moreover have "\<exists>vs. read_refs (read_file h) h (file_changes m) = Some vs"
    using assms(1) m(3) by (rule read_refs_defined) (rule read_file_defined [OF assms(1)])
  moreover have "\<exists>vs. read_refs (load_bash h) h (bash_commands m) = Some vs"
    using assms(1) m(4) by (rule read_refs_defined) (auto simp: load_bash_def dest: typed_bash [OF assms(1)])
  moreover have "\<exists>vs. read_refs (load_err h) h (errors m) = Some vs"
    using assms(1) m(5) by (rule read_refs_defined) (auto simp: load_err_def dest: typed_err [OF assms(1)])
  moreover have "\<exists>vs. read_vals h (thinking m) = Some vs"
    using assms(1) m(6) by (rule read_vals_defined)
  ultimately show ?thesis using m(1) by (auto simp: read_message_def load_message_def)
qed

lemma read_reset:
  "read_message (fst (reset h)) (currentMessage (snd (reset h))) = Some empty_message"
  "currentTool (snd (reset h)) = None" "currentFile (snd (reset h)) = None"
  "currentBash (snd (reset h)) = None"
  by (simp_all add: reset_def alloc_def read_message_def load_message_def read_refs_def
      read_vals_def load_array_def load_def nth_append empty_message_def)

subsection \<open>finalize\<close>

lemma finalize_eq:
  assumes "load_message h (currentMessage ag) = Some m"
  shows "finalize (h, ag) =
     Some (reset (h @ [Message (m\<lparr>content := trim (content m)\<rparr>)]), length h)"
  using assms
  by (simp add: finalize_def alloc_def load_message_def load_alloc store_def)

lemma typed_copy:
  assumes "inv k T (h, ag)" "load_message h (currentMessage ag) = Some m"
  shows "typed (T @ [TMessage]) (h @ [Message (m\<lparr>content := c\<rparr>)])"
proof -
  from assms(1) have t: "typed T h" by (rule invD)
  from inv_msg_tags [OF assms] show ?thesis
    by (intro typed_alloc [OF t]) (simp add: tag_at_append)
qed

lemma read_copy:
  assumes "read_message h a = Some v" "load_message h a = Some m"
  shows "read_message (h @ [Message (m\<lparr>content := c\<rparr>)]) (length h) = Some (v\<lparr>a_content := c\<rparr>)"
proof -
  let ?h = "h @ [Message (m\<lparr>content := c\<rparr>)]"
  have s: "same_below (length h) h ?h" by (simp add: same_below_def)
  from assms obtain tc fc bc er th where r:
    "read_refs (load_tool h) h (tool_calls m) = Some tc"
    "read_refs (read_file h) h (file_changes m) = Some fc"
    "read_refs (load_bash h) h (bash_commands m) = Some bc"
    "read_refs (load_err h) h (errors m) = Some er"
    "read_vals h (thinking m) = Some th"
    "v = \<lparr>a_content = content m, a_tool_calls = tc, a_file_changes = fc,
           a_bash_commands = bc, a_errors = er, a_thinking = th\<rparr>"
    by (auto simp: read_message_def split: Option.bind_splits)
  have "load_message ?h (length h) = Some (m\<lparr>content := c\<rparr>)"
    by (simp add: load_message_def load_alloc)
  moreover have "read_refs (load_tool ?h) ?h (tool_calls m) = Some tc"
    using r(1) s by (rule read_refs_same) (rule loaders_same(2) [OF s])
  moreover have "read_refs (read_file ?h) ?h (file_changes m) = Some fc"
    using r(2) s by (rule read_refs_same) (rule read_file_same [OF _ s])
  moreover have "read_refs (load_bash ?h) ?h (bash_commands m) = Some bc"
    using r(3) s by (rule read_refs_same) (rule loaders_same(4) [OF s])
  moreover have "read_refs (load_err ?h) ?h (errors m) = Some er"
    using r(4) s by (rule read_refs_same) (rule loaders_same(5) [OF s])
  moreover have "read_vals ?h (thinking m) = Some th"
    using r(5) s by (rule read_vals_same)
  ultimately show ?thesis by (simp add: read_message_def r(6))
qed

lemma inv_fst:
  assumes "inv k T st"
  shows "typed T (fst st)" "k \<le> length (fst st)"
proof -
  obtain h ag where st: "st = (h, ag)" by (cases st)
  from assms [unfolded st] show "typed T (fst st)" "k \<le> length (fst st)"
    unfolding st by (auto elim: invD)
qed

lemma finalize_moves:
  assumes "inv k T (h, ag)"
  shows "\<exists>T' st' snap. finalize (h, ag) = Some (st', snap) \<and> inv k T' st' \<and> same_below k h (fst st')"
proof -
  from inv_load_message [OF assms] obtain m
    where m: "load_message h (currentMessage ag) = Some m" by blast
  let ?h = "h @ [Message (m\<lparr>content := trim (content m)\<rparr>)]"
  have kl: "k \<le> length h" using assms by (rule invD)
  from reset_inv [OF typed_copy [OF assms m]] obtain T'
    where r: "inv (length ?h) T' (reset ?h)" "same_below (length ?h) ?h (fst (reset ?h))"
    by blast
  from r(1) have i: "inv k T' (reset ?h)" by (rule inv_mono) (use kl in simp)
  have sb: "same_below k h (fst (reset ?h))"
  proof (rule same_below_trans)
    show "same_below k h ?h" using kl by (rule same_below_alloc)
    show "same_below k ?h (fst (reset ?h))" using r(2) by (rule same_below_mono) (use kl in simp)
  qed
  show ?thesis
  proof (intro exI conjI)
    show "finalize (h, ag) = Some (reset ?h, length h)" by (rule finalize_eq [OF m])
    show "inv k T' (reset ?h)" by (rule i)
    show "same_below k h (fst (reset ?h))" by (rule sb)
  qed
qed

lemma step_moves:
  assumes "inv k T st"
  shows "\<exists>T' st'. step st c = Some st' \<and> inv k T' st' \<and> same_below k (fst st) (fst st')"
proof (cases c)
  case (AddEvent e)
  with addEvent_moves [of k T "fst st" "snd st" e] assms show ?thesis
    by (simp add: moves_def)
next
  case Finalize
  with finalize_moves [of k T "fst st" "snd st"] assms show ?thesis by auto
next
  case Reset
  from assms have t: "typed T (fst st)" and kl: "k \<le> length (fst st)"
    by (rule inv_fst)+
  from reset_inv [OF t] kl Reset show ?thesis
    by (auto simp: agg_reset_def intro: inv_mono same_below_mono)
qed

lemma exec_moves:
  assumes "inv k T st"
  shows "\<exists>T' st'. exec st cs = Some st' \<and> inv k T' st' \<and> same_below k (fst st) (fst st')"
  using assms
proof (induction cs arbitrary: T st)
  case Nil
  then have "k \<le> length (fst st)" by (rule inv_fst)
  with Nil show ?case by (auto intro: same_below_refl)
next
  case (Cons c cs)
  from step_moves [OF Cons.prems, of c] obtain T1 st1
    where 1: "step st c = Some st1" "inv k T1 st1" "same_below k (fst st) (fst st1)" by blast
  from Cons.IH [OF 1(2)] obtain T2 st2
    where 2: "exec st1 cs = Some st2" "inv k T2 st2" "same_below k (fst st1) (fst st2)" by blast
  from 1 2 show ?case by (auto intro: same_below_trans)
qed

lemma new_inv: "\<exists>T. inv 0 T (MessageAggregator [])"
  using reset_inv(1) [of "[]" "[]"] by (simp add: MessageAggregator_def typed_def)

lemma trim_Nil: "trim [] = []"
  by (simp add: trim_def)

lemma exec_append: "exec st (cs @ ds) = (case exec st cs of None \<Rightarrow> None | Some st1 \<Rightarrow> exec st1 ds)"
  by (induction cs arbitrary: st) (auto split: option.splits)

lemma exec_defined: "\<exists>T h ag. exec (MessageAggregator []) cs = Some (h, ag) \<and> inv 0 T (h, ag)"
proof -
  from new_inv obtain T0 where "inv 0 T0 (MessageAggregator [])" by blast
  from exec_moves [OF this, of cs] show ?thesis by (metis prod.collapse)
qed

lemma finalize_read:
  assumes "inv k T (h, ag)"
  obtains v m T' where
    "read_message h (currentMessage ag) = Some v"
    "finalize (h, ag) = Some (reset (h @ [m]), length h)"
    "read_message (fst (reset (h @ [m]))) (length h) = Some (v\<lparr>a_content := trim (a_content v)\<rparr>)"
    "inv (Suc (length h)) T' (reset (h @ [m]))"
    "same_below (Suc (length h)) (h @ [m]) (fst (reset (h @ [m])))"
    "read_message (h @ [m]) (length h) = Some (v\<lparr>a_content := trim (a_content v)\<rparr>)"
proof -
  from assms have ty: "typed T h" and tg: "tag_at T (currentMessage ag) TMessage"
    by (auto elim: invD)
  from read_message_defined [OF ty tg] obtain v
    where v: "read_message h (currentMessage ag) = Some v" by blast
  then obtain m where m: "load_message h (currentMessage ag) = Some m" "a_content v = content m"
    by (auto simp: read_message_def split: Option.bind_splits)
  let ?m = "Message (m\<lparr>content := trim (content m)\<rparr>)"
  from reset_inv [OF typed_copy [OF assms m(1)], of "trim (content m)"] obtain T'
    where r: "inv (length (h @ [?m])) T' (reset (h @ [?m]))"
      "same_below (length (h @ [?m])) (h @ [?m]) (fst (reset (h @ [?m])))"
    by blast
  have c: "read_message (h @ [?m]) (length h) = Some (v\<lparr>a_content := trim (a_content v)\<rparr>)"
    using read_copy [OF v m(1)] m(2) by simp
  have "read_message (fst (reset (h @ [?m]))) (length h) = Some (v\<lparr>a_content := trim (a_content v)\<rparr>)"
    using c r(2) by (rule read_message_same)
  with v finalize_eq [OF m(1)] r c that show ?thesis by simp
qed

text \<open>
  Claim C6. After any sequence of calls on a new aggregator, \<open>finalize\<close> returns a message
  whose content is the accumulated text trimmed and whose lists are those accumulated;
  no later call on the aggregator changes what the returned message reads as; the
  aggregator is back at its baseline (empty message, no open tool, file or bash slot);
  and a second \<open>finalize\<close> at once returns a message with empty content and empty
  lists.
\<close>

theorem finalize_snapshot:
  "\<exists>h ag v h1 ag1 snap.
     exec (MessageAggregator []) cs = Some (h, ag) \<and>
     read_message h (currentMessage ag) = Some v \<and>
     finalize (h, ag) = Some ((h1, ag1), snap) \<and>
     read_message h1 snap = Some (v\<lparr>a_content := trim (a_content v)\<rparr>) \<and>
     (\<forall>cs' h2 ag2. exec (h1, ag1) cs' = Some (h2, ag2) \<longrightarrow>
        read_message h2 snap = read_message h1 snap) \<and>
     read_message h1 (currentMessage ag1) = Some empty_message \<and>
     currentTool ag1 = None \<and> currentFile ag1 = None \<and> currentBash ag1 = None \<and>
     finalized (h1, ag1) = Some empty_message"
proof -
  from exec_defined [of cs] obtain T h ag
    where e: "exec (MessageAggregator []) cs = Some (h, ag)" and i: "inv 0 T (h, ag)" by blast
  from i obtain v m T1 where f:
    "read_message h (currentMessage ag) = Some v"
    "finalize (h, ag) = Some (reset (h @ [m]), length h)"
    "read_message (fst (reset (h @ [m]))) (length h) = Some (v\<lparr>a_content := trim (a_content v)\<rparr>)"
    "inv (Suc (length h)) T1 (reset (h @ [m]))"
    "same_below (Suc (length h)) (h @ [m]) (fst (reset (h @ [m])))"
    "read_message (h @ [m]) (length h) = Some (v\<lparr>a_content := trim (a_content v)\<rparr>)"
    by (rule finalize_read)
  obtain h1 ag1 where r: "reset (h @ [m]) = (h1, ag1)" by (cases "reset (h @ [m])")
  have later: "read_message h2 (length h) = read_message h1 (length h)"
    if "exec (h1, ag1) cs' = Some (h2, ag2)" for cs' h2 ag2
  proof -
    from exec_moves [OF f(4) [unfolded r], of cs'] that
    have "same_below (Suc (length h)) h1 h2" by auto
    with f(5) [unfolded r] have "same_below (length (h @ [m])) (h @ [m]) h2"
      by (auto intro: same_below_trans)
    from read_message_same [OF f(6) this] f(3) [unfolded r] show ?thesis by simp
  qed
  have base: "read_message h1 (currentMessage ag1) = Some empty_message"
    "currentTool ag1 = None" "currentFile ag1 = None" "currentBash ag1 = None"
    using read_reset [of "h @ [m]"] by (simp_all add: r)
  from f(4) [unfolded r] obtain v2 m2 T2 where g:
    "read_message h1 (currentMessage ag1) = Some v2"
    "finalize (h1, ag1) = Some (reset (h1 @ [m2]), length h1)"
    "read_message (fst (reset (h1 @ [m2]))) (length h1) = Some (v2\<lparr>a_content := trim (a_content v2)\<rparr>)"
    by (rule finalize_read)
  with base(1) have fin: "finalized (h1, ag1) = Some empty_message"
    by (simp add: finalized_def empty_message_def trim_Nil)
  show ?thesis
  proof (intro exI conjI allI impI)
    show "exec (MessageAggregator []) cs = Some (h, ag)" by (rule e)
    show "read_message h (currentMessage ag) = Some v" by (rule f(1))
    show "finalize (h, ag) = Some ((h1, ag1), length h)" using f(2) by (simp add: r)
    show "read_message h1 (length h) = Some (v\<lparr>a_content := trim (a_content v)\<rparr>)"
      using f(3) by (simp add: r)
    show "read_message h2 (length h) = read_message h1 (length h)"
      if "exec (h1, ag1) cs' = Some (h2, ag2)" for cs' h2 ag2
      using that by (rule later)
  qed (rule base fin)+
qed

text \<open>
  Claim C7. When no tool slot is open (\<open>currentTool\<close> is null: the state of a new
  aggregator, and the state after every \<open>tool_result\<close>), \<open>addEvent\<close> on a \<open>tool_result\<close>
  event returns normally and leaves store and aggregator as they were; so every later
  state, and the message a later \<open>finalize\<close> returns, is what it is without the event.
\<close>

theorem tool_result_dropped:
  assumes "exec (MessageAggregator []) cs = Some st" "currentTool (snd st) = None"
    "event_type r = js ''tool_result''"
  shows "addEvent st r = Some st \<and>
    exec (MessageAggregator []) (cs @ AddEvent r # cs') = exec (MessageAggregator []) (cs @ cs') \<and>
    (\<exists>st' v. exec (MessageAggregator []) (cs @ AddEvent r # cs') = Some st' \<and> finalized st' = Some v)"
proof -
  have a: "addEvent st r = Some st"
    using assms(2,3) by (cases st) (simp add: addEvent_tool_result)
  then have b: "exec (MessageAggregator []) (cs @ AddEvent r # cs') = exec (MessageAggregator []) (cs @ cs')"
    using assms(1) by (simp add: exec_append)
  from exec_defined [of "cs @ cs'"] obtain T h ag
    where e: "exec (MessageAggregator []) (cs @ cs') = Some (h, ag)" "inv 0 T (h, ag)" by blast
  from e(2) obtain v m T1 where
    "finalize (h, ag) = Some (reset (h @ [m]), length h)"
    "read_message (fst (reset (h @ [m]))) (length h) = Some (v\<lparr>a_content := trim (a_content v)\<rparr>)"
    by (rule finalize_read)
  then have "finalized (h, ag) = Some (v\<lparr>a_content := trim (a_content v)\<rparr>)"
    by (simp add: finalized_def)
  with a b e(1) show ?thesis by simp
qed

text \<open>
  Claim C9. An event whose type is none of the nine case labels leaves store and
  aggregator as they were, so every later state is what it is without the event. The
  type \<open>usage\<close> is none of the labels.
\<close>

theorem unhandled_event_ignored:
  assumes "event_type e \<notin> set handled"
  shows "addEvent st e = Some st \<and> exec st0 (cs @ AddEvent e # cs') = exec st0 (cs @ cs')"
  using assms by (simp add: exec_append addEvent_other split: option.splits)

lemma usage_not_handled: "js ''usage'' \<notin> set handled"
  by (simp add: handled_def js_def)

subsection \<open>The sample run\<close>

lemma finalized_calls0:
  "Option.bind (exec (MessageAggregator []) calls0) finalized = Some message0"
  by code_simp

lemma closed_calls0: "currentTool (snd (the (exec (MessageAggregator []) calls0))) = None"
  by code_simp

text \<open>
  The sample run: \<open>finalize\<close> after the first batch returns the trimmed text and the
  closed tool call; the second batch, run after it, leaves the returned message as it
  was.
\<close>

theorem finalize_snapshot_witness:
  "\<exists>h ag h1 ag1 snap h2 ag2.
     exec (MessageAggregator []) calls0 = Some (h, ag) \<and>
     finalize (h, ag) = Some ((h1, ag1), snap) \<and>
     read_message h1 snap = Some message0 \<and>
     exec (h1, ag1) calls1 = Some (h2, ag2) \<and>
     read_message h2 snap = Some message0 \<and>
     finalized (h1, ag1) = Some empty_message"
proof -
  from finalize_snapshot [of calls0] obtain h ag v h1 ag1 snap where f:
    "exec (MessageAggregator []) calls0 = Some (h, ag)"
    "finalize (h, ag) = Some ((h1, ag1), snap)"
    "read_message h1 snap = Some (v\<lparr>a_content := trim (a_content v)\<rparr>)"
    "\<And>cs' h2 ag2. exec (h1, ag1) cs' = Some (h2, ag2) \<Longrightarrow>
        read_message h2 snap = read_message h1 snap"
    "finalized (h1, ag1) = Some empty_message"
    by blast
  from finalized_calls0 f(1,2) have m: "read_message h1 snap = Some message0"
    by (simp add: finalized_def)
  from exec_defined [of "calls0 @ Finalize # calls1"] obtain h2 ag2
    where "exec (MessageAggregator []) (calls0 @ Finalize # calls1) = Some (h2, ag2)" by blast
  with f(1,2) have e: "exec (h1, ag1) calls1 = Some (h2, ag2)" by (simp add: exec_append)
  from f(4) [OF e] m have "read_message h2 snap = Some message0" by simp
  with f(1,2,5) m e show ?thesis by blast
qed

text \<open>
  A tool result on a new aggregator, and one after a tool call that an earlier result
  has closed, are dropped.
\<close>

theorem tool_result_dropped_witness:
  "addEvent (MessageAggregator []) late_result = Some (MessageAggregator []) \<and>
   exec (MessageAggregator []) (calls0 @ [AddEvent late_result]) = exec (MessageAggregator []) calls0 \<and>
   Option.bind (exec (MessageAggregator []) (calls0 @ [AddEvent late_result])) finalized = Some message0"
proof -
  have t: "event_type late_result = js ''tool_result''" by (simp add: late_result_def)
  have 1: "exec (MessageAggregator []) [] = Some (MessageAggregator [])" by simp
  have 2: "currentTool (snd (MessageAggregator [])) = None"
    by (simp add: MessageAggregator_def read_reset)
  from exec_defined [of calls0]
  have 3: "exec (MessageAggregator []) calls0 = Some (the (exec (MessageAggregator []) calls0))"
    by auto
  from tool_result_dropped [OF 1 2 t, of "[]"] tool_result_dropped [OF 3 closed_calls0 t, of "[]"]
    finalized_calls0
  show ?thesis by simp
qed

text \<open>The parser's event for a token line is a \<open>usage\<close> event, which the aggregator ignores.\<close>

theorem unhandled_event_ignored_witness:
  "parseLine (js ''Total tokens: 1,234'') =
     Some \<lparr>event_type = js ''usage'', data = [(''raw'', Str (js ''Total tokens: 1,234''))]\<rparr> \<and>
   addEvent (MessageAggregator [])
     \<lparr>event_type = js ''usage'', data = [(''raw'', Str (js ''Total tokens: 1,234''))]\<rparr> =
     Some (MessageAggregator [])"
proof -
  have p: "parseLine (js ''Total tokens: 1,234'') =
     Some \<lparr>event_type = js ''usage'', data = [(''raw'', Str (js ''Total tokens: 1,234''))]\<rparr>"
    by code_simp
  have "event_type \<lparr>event_type = js ''usage'', data = [(''raw'', Str (js ''Total tokens: 1,234''))]\<rparr>
      \<notin> set handled"
    by (simp add: usage_not_handled)
  from unhandled_event_ignored [OF this, of "MessageAggregator []" "MessageAggregator []" "[]" "[]"] p
  show ?thesis by simp
qed

section \<open>Properties of the spawner\<close>

text \<open>
  Claim C8. \<open>start()\<close> on a handle that is not running, with the credential absent
  (unset or empty), does not throw: it returns \<open>null\<close>, emits exactly one notification,
  a \<open>process_error\<close> with source \<open>config\<close>, and changes nothing else, so the handle is
  not running (\<open>isActive()\<close> is false); a \<open>write\<close> after it throws "Process not running".
\<close>

theorem start_without_credential:
  assumes "\<not> isRunning sp" "key = Undefined \<or> key = Str []"
  shows "start key t sp =
       Inr (sp\<lparr>emitted := emitted sp @ [(''process_error'', config_error (sessionId sp) t)]\<rparr>, None) \<and>
     \<not> isActive (sp\<lparr>emitted := emitted sp @ [(''process_error'', config_error (sessionId sp) t)]\<rparr>) \<and>
     write' input (sp\<lparr>emitted := emitted sp @ [(''process_error'', config_error (sessionId sp) t)]\<rparr>) =
       Inl (Error (js ''Process not running''))"
  using assms
  by (auto simp: start_def emit_def isActive_def write'_def config_error_def split: option.splits)

text \<open>A new spawner, the variable unset: the one notification, and the failing write.\<close>

theorem start_without_credential_witness:
  "start Undefined Null (ClaudeProcessSpawner (Str (js ''s1'')) Null Null) =
     Inr ((ClaudeProcessSpawner (Str (js ''s1'')) Null Null)
       \<lparr>emitted := [(''process_error'', config_error (Str (js ''s1'')) Null)]\<rparr>, None) \<and>
   write' (js ''hello'') ((ClaudeProcessSpawner (Str (js ''s1'')) Null Null)
       \<lparr>emitted := [(''process_error'', config_error (Str (js ''s1'')) Null)]\<rparr>) =
     Inl (Error (js ''Process not running''))"
proof -
  have "\<not> isRunning (ClaudeProcessSpawner (Str (js ''s1'')) Null Null)"
    by (simp add: ClaudeProcessSpawner_def)
  from start_without_credential [OF this, of Undefined Null "js ''hello''"] show ?thesis
    by (simp add: ClaudeProcessSpawner_def)
qed

text \<open>
  Chunks that end with a line feed leave both buffers empty, and the \<open>output\<close>
  notifications of a running spawner are then the events of the parser on the
  concatenation of the chunks, each with the session id.
\<close>

lemma split_nl_line_end: "last (split_nl (c @ [0x0A])) = []"
proof -
  have "split_nl (last (split_nl c) @ [0x0A]) = [last (split_nl c), []]"
    using split_nl_no_nl [OF split_nl_last_no_nl, of c "[0x0A]"] by simp
  then show ?thesis using split_nl_append [of c "[0x0A]"] by simp
qed

lemma emit_events:
  "foldl (\<lambda>s e. emit ''output'' (output_notification (sessionId s) t e) s) sp es =
     sp\<lparr>emitted := emitted sp @ map (\<lambda>e. (''output'', output_notification (sessionId sp) t e)) es\<rparr>"
  by (induction es arbitrary: sp) (simp_all add: emit_def)

lemma on_stdout_line:
  assumes "outputBuffer sp = []" "remaining (parser sp) = []"
  shows "on_stdout t (c @ [0x0A]) sp =
     sp\<lparr>parser := fst (parse (parser sp) (c @ [0x0A])),
        emitted := emitted sp @ map (\<lambda>e. (''output'', output_notification (sessionId sp) t e))
                     (snd (parse (parser sp) (c @ [0x0A]))),
        outputBuffer := []\<rparr>"
    and "remaining (fst (parse (parser sp) (c @ [0x0A]))) = []"
proof -
  show r: "remaining (fst (parse (parser sp) (c @ [0x0A]))) = []"
    using assms(2) by (simp add: parse_def Let_def split_nl_line_end)
  show "on_stdout t (c @ [0x0A]) sp =
     sp\<lparr>parser := fst (parse (parser sp) (c @ [0x0A])),
        emitted := emitted sp @ map (\<lambda>e. (''output'', output_notification (sessionId sp) t e))
                     (snd (parse (parser sp) (c @ [0x0A]))),
        outputBuffer := []\<rparr>"
    using assms(1) r
    by (simp add: on_stdout_def processBuffer_def emit_events getRemaining_def case_prod_beta)
qed

lemma feed_lines:
  assumes "outputBuffer sp = []" "remaining (parser sp) = []"
    and "list_all (\<lambda>c. endsWith c [0x0A]) chunks"
  shows "outputs (feed t chunks sp) =
     outputs sp @ map (output_notification (sessionId sp) t) (snd (parse_chunks (parser sp) chunks))"
  using assms
proof (induction chunks arbitrary: sp)
  case Nil
  show ?case by simp
next
  case (Cons c cs)
  from Cons.prems(3) obtain c' where c: "c = c' @ [0x0A]"
    by (cases c rule: rev_cases) auto
  let ?sp = "on_stdout t c sp"
  note o = on_stdout_line(1) [OF Cons.prems(1,2), where t = t and c = c', folded c]
    on_stdout_line(2) [OF Cons.prems(1,2), where c = c', folded c]
  have 1: "outputBuffer ?sp = []" "remaining (parser ?sp) = []" "sessionId ?sp = sessionId sp"
    "parser ?sp = fst (parse (parser sp) c)"
    "outputs ?sp = outputs sp @ map (output_notification (sessionId sp) t) (snd (parse (parser sp) c))"
    using o by (simp_all add: outputs_def)
  from Cons.IH [OF 1(1,2)] Cons.prems(3) 1(3,4,5) show ?case
    by (simp add: split: prod.splits)
qed

lemma feed_lines_running:
  assumes "list_all (\<lambda>c. endsWith c [0x0A]) chunks"
  shows "outputs (feed t chunks (running_spawner sid)) =
     map (output_notification sid t) (snd (parse (OutputParser sid) (concat chunks)))"
proof -
  have r: "outputBuffer (running_spawner sid) = []" "remaining (parser (running_spawner sid)) = []"
    "sessionId (running_spawner sid) = sid" "outputs (running_spawner sid) = []"
    "parser (running_spawner sid) = OutputParser sid"
    by (simp_all add: running_spawner_def start_def ClaudeProcessSpawner_def OutputParser_def
        js_def outputs_def Let_def)
  have "parse_chunks (OutputParser sid) chunks = parse (OutputParser sid) (concat chunks)"
  proof (cases chunks)
    case Nil
    then show ?thesis by (simp add: parse_empty OutputParser_def)
  next
    case (Cons c cs)
    show ?thesis unfolding Cons by (rule parse_chunks_Cons)
  qed
  with feed_lines [OF r(1,2) assms, of t] r(3,4,5) show ?thesis by simp
qed

text \<open>
  Claim C1, at the chunks \<open>Hel\<close> and \<open>lo\<close> with a line feed. The listener appends each
  chunk to \<open>outputBuffer\<close> and passes the whole buffer to \<open>parse\<close>, which prepends its own
  \<open>remaining\<close>: the incomplete line \<open>Hel\<close> is held in both and so enters the second call
  twice. The running spawner emits one \<open>output\<close> notification, for a text event with
  content \<open>HelHello\<close>; the parser on the concatenation of the chunks yields one text
  event with content \<open>Hello\<close>.
\<close>

theorem stdout_partial_line_duplicated:
  "outputs (feed t [js ''Hel'', js ''lo'' @ [0x0A]] (running_spawner sid)) =
     [output_notification sid t \<lparr>event_type = js ''text'', data = [(''content'', Str (js ''HelHello''))]\<rparr>] \<and>
   snd (parse (OutputParser sid) (concat [js ''Hel'', js ''lo'' @ [0x0A]])) =
     [\<lparr>event_type = js ''text'', data = [(''content'', Str (js ''Hello''))]\<rparr>]"
  by code_simp

section \<open>Properties of the message handler\<close>

text \<open>
  Claim C10. When the content of an inbound message is absent, empty or only white
  space (or any other value that is false as a condition), \<open>handleUserMessage\<close> sends one
  message on the socket, the error \<open>Empty message content\<close>, and returns: the world is
  otherwise unchanged (no session, no stored message, nothing written to a process) and
  the bound session id is what it was.
\<close>

theorem empty_content_rejected:
  assumes "\<not> truthy (field msg ''content'') \<or>
     (\<exists>text. field msg ''content'' = Str text \<and> trim text = [])"
  shows "handleUserMessage e msg sock user_sub settings currentSessionId w =
     (w\<lparr>sent := (sent w)(sock := sent w sock @
         [[(''type'', Str (js ''error'')), (''message'', Str (js ''Empty message content''))]])\<rparr>,
      currentSessionId, Inr ())"
  using assms by (auto simp: handleUserMessage_def send_def Let_def)

text \<open>A message of white space, and a message without content, in the empty world.\<close>

theorem empty_content_rejected_witness:
  "handleUserMessage env0 [(''type'', Str (js ''message'')), (''content'', Str (js ''  ''))] 0 user0 []
       Null world0 =
     (world0\<lparr>sent := (sent world0)(0 :=
         [[(''type'', Str (js ''error'')), (''message'', Str (js ''Empty message content''))]])\<rparr>,
      Null, Inr ()) \<and>
   handleUserMessage env0 [(''type'', Str (js ''message''))] 0 user0 [] Null world0 =
     (world0\<lparr>sent := (sent world0)(0 :=
         [[(''type'', Str (js ''error'')), (''message'', Str (js ''Empty message content''))]])\<rparr>,
      Null, Inr ())"
proof -
  have 1: "\<exists>text. field [(''type'', Str (js ''message'')), (''content'', Str (js ''  ''))] ''content'' = Str text
      \<and> trim text = []"
    by (simp add: field_def trim_def js_def isSpace_def isWhiteSpace_def)
  have 2: "\<not> truthy (field [(''type'', Str (js ''message''))] ''content'')"
    by (simp add: field_def)
  have 3: "sent world0 0 = []" by (simp add: world0_def)
  from empty_content_rejected [of "[(''type'', Str (js ''message'')), (''content'', Str (js ''  ''))]"
      env0 0 user0 "[]" Null world0]
    empty_content_rejected [of "[(''type'', Str (js ''message''))]" env0 0 user0 "[]" Null world0]
    1 2 3
  show ?thesis by simp
qed

text \<open>
  For comparison, a message with content \<open>hi\<close> in the empty world: a session is created
  and bound, the user message is stored, two messages are sent (\<open>session_started\<close>,
  \<open>message_received\<close>), and the content is written to the new process.
\<close>

lemma message_starts_session:
  "(case handleUserMessage env0 [(''type'', Str (js ''message'')), (''content'', Str (js ''hi''))] 0 user0
       [] Null world0 of
      (w, bound, r) \<Rightarrow>
        bound = Str (js ''a'') \<and> r = Inr () \<and> getActiveSessionCount w user0 = 1 \<and>
        db_messages w = [(Str (js ''a''), js ''user'', Str (js ''hi''), js ''user_message'')] \<and>
        map_option (\<lambda>sp. map_option stdin (process sp)) (spawners w (Str (js ''a''))) =
          Some (Some [js ''hi'' @ [0x0A]]) \<and>
        length (sent w 0) = 2)"
  by (simp add: handleUserMessage_def env0_def world0_def user0_def row_a_def field_def trim_def
      isSpace_def isWhiteSpace_def isLineTerminator_def hasSession_def startSession_def
      startSession_check_def canCreateSession_def getActiveSessionCount_def
      startSession_register_def setTimeout_def send_def start_def ClaudeProcessSpawner_def
      deliver_def write'_def Let_def js_def fcard_finsert_if)

section \<open>Properties of the session manager\<close>

lemma count_register:
  assumes "row_id session |\<notin>| (case userSessions w u of Some sessions \<Rightarrow> sessions | None \<Rightarrow> {||})"
  shows "getActiveSessionCount (fst (startSession_register w u pref mdl wd sock session)) u =
     Suc (getActiveSessionCount w u)"
  using assms
  by (auto simp: startSession_register_def getActiveSessionCount_def setTimeout_def Let_def
      fcard_finsert_disjoint split: option.splits)

lemma startSession_full:
  assumes "getActiveSessionCount w u = n" "mx = Finite (int n)"
  shows "startSession mx cr w u pref mdl wd sock = Inl (capacity_error mx)"
  using assms by (simp add: startSession_def startSession_check_def canCreateSession_def)

lemma startSession_below:
  assumes "getActiveSessionCount w u < n" "mx = Finite (int n)"
  shows "startSession mx (Inr session) w u pref mdl wd sock =
     Inr (startSession_register w u pref mdl wd sock session)"
  using assms by (simp add: startSession_def startSession_check_def canCreateSession_def)

lemma endSession_userSessions:
  assumes "activeSessions w sid = Some session"
  shows "userSessions (fst (endSession t (Inr ()) sid reason w)) =
     (case userSessions w (userId session) of
        Some sessions \<Rightarrow>
          if fcard (sessions |-| {|sid|}) = 0 then (userSessions w)(userId session := None)
          else (userSessions w)(userId session \<mapsto> sessions |-| {|sid|})
      | None \<Rightarrow> userSessions w)"
    and "activeSessions (fst (endSession t (Inr ()) sid reason w)) = (activeSessions w)(sid := None)"
    and "snd (endSession t (Inr ()) sid reason w) = Inr (Some (sid, reason, end_status reason))"
  using assms
  by (simp_all add: endSession_def clearTimeout_def send_def Let_def split: option.splits)

lemma count_endSession:
  assumes "activeSessions w sid = Some session" "userSessions w (userId session) = Some sessions"
    "sid |\<in>| sessions"
  shows "getActiveSessionCount (fst (endSession t (Inr ()) sid reason w)) (userId session) =
       getActiveSessionCount w (userId session) - 1"
proof -
  have c: "fcard (sessions |-| {|sid|}) = fcard sessions - 1"
    using assms(3) by (simp add: fcard_fminus_fsingleton)
  show ?thesis
    unfolding getActiveSessionCount_def endSession_userSessions(1) [OF assms(1)]
    using assms(2) c
    by (cases "fcard (sessions |-| {|sid|}) = 0") (simp_all del: fcard_0_eq)
qed

text \<open>
  Calls that run one after another: with the owner at the limit \<open>startSession\<close> throws
  the capacity error; after \<open>endSession\<close> on one of the owner's sessions the next
  \<open>startSession\<close> registers its session (the database returning a row with a new id),
  which brings the owner back to the limit; and the one after that throws again.
\<close>

lemma capacity_sequential:
  assumes "activeSessions w sid = Some session" "userSessions w (userId session) = Some sessions"
    "sid |\<in>| sessions" "mx = Finite (int (fcard sessions))" "row_id r |\<notin>| sessions"
  shows "startSession mx cr w (userId session) pref mdl wd sock = Inl (capacity_error mx)"
    and "startSession mx (Inr r) (fst (endSession t (Inr ()) sid reason w)) (userId session) pref mdl wd sock =
       Inr (startSession_register (fst (endSession t (Inr ()) sid reason w)) (userId session) pref mdl wd sock r)"
    and "getActiveSessionCount
       (fst (startSession_register (fst (endSession t (Inr ()) sid reason w)) (userId session) pref mdl wd sock r))
       (userId session) = fcard sessions"
    and "startSession mx cr'
       (fst (startSession_register (fst (endSession t (Inr ()) sid reason w)) (userId session) pref mdl wd sock r))
       (userId session) pref' mdl' wd' sock' = Inl (capacity_error mx)"
proof -
  let ?u = "userId session"
  let ?w1 = "fst (endSession t (Inr ()) sid reason w)"
  let ?w2 = "fst (startSession_register ?w1 ?u pref mdl wd sock r)"
  have n: "getActiveSessionCount w ?u = fcard sessions"
    using assms(2) by (simp add: getActiveSessionCount_def)
  have pos: "0 < fcard sessions"
    using assms(3) by (metis fcard_fminus1_less less_nat_zero_code not_gr_zero)
  show "startSession mx cr w ?u pref mdl wd sock = Inl (capacity_error mx)"
    using n assms(4) by (rule startSession_full)
  have c1: "getActiveSessionCount ?w1 ?u = fcard sessions - 1"
    using count_endSession [OF assms(1,2,3), of t reason] n by simp
  then have "getActiveSessionCount ?w1 ?u < fcard sessions" using pos by simp
  then show "startSession mx (Inr r) ?w1 ?u pref mdl wd sock =
       Inr (startSession_register ?w1 ?u pref mdl wd sock r)"
    using assms(4) by (rule startSession_below)
  have "row_id r |\<notin>| (case userSessions ?w1 ?u of Some s \<Rightarrow> s | None \<Rightarrow> {||})"
    using assms(2,5) by (simp add: endSession_userSessions(1) [OF assms(1)])
  from count_register [OF this] c1 pos
  show c2: "getActiveSessionCount ?w2 ?u = fcard sessions" by simp
  show "startSession mx cr' ?w2 ?u pref' mdl' wd' sock' = Inl (capacity_error mx)"
    using c2 assms(4) by (rule startSession_full)
qed

text \<open>
  Claim C5, for two calls of \<open>startSession\<close> that overlap. The limit is 1 and the owner
  has no session. The first call passes the check and awaits \<open>createSession\<close>; the second
  call starts in the same world and passes the check too; then each registers its
  session. The owner has two active sessions, one more than the limit. (Had the second
  call started after the first had registered, it would have thrown the capacity error.)
\<close>

theorem overlapping_starts_exceed_limit:
  "startSession_check (Finite 1) world0 user0 = Inr () \<and>
   getActiveSessionCount
     (fst (startSession_register (fst (startSession_register world0 user0 Null Null Null 0 row_a))
        user0 Null Null Null 0 row_b)) user0 = 2 \<and>
   startSession (Finite 1) (Inr row_b) (fst (startSession_register world0 user0 Null Null Null 0 row_a))
     user0 Null Null Null 0 = Inl (capacity_error (Finite 1))"
  by (simp add: startSession_check_def canCreateSession_def getActiveSessionCount_def world0_def
      startSession_register_def setTimeout_def row_a_def row_b_def user0_def js_def Let_def
      startSession_def fcard_finsert_if)

end
